theory Spec2Isabelle
  imports Main "HOL-Library.Word" "HOL-Library.Signed_Division"
begin

section \<open>Values that cross the row-to-column boundary\<close>

text \<open>
  The converter package (\<^verbatim>\<open>pkg/infrastructure/converter/batch_reader.go\<close>) reads rows
  of a \<^verbatim>\<open>*sql.Rows\<close> cursor into scan destinations and appends them to Arrow
  builders. The Go runtime can leave a function in three ways: it returns, it returns an
  \<^verbatim>\<open>error\<close>, or it panics (a failed unchecked type assertion, a nil dereference, an
  index out of range). A panic is the constructor \<open>Panic\<close> of \<open>outcome\<close>; an
  \<^verbatim>\<open>error\<close> result is an \<open>error option\<close> inside \<open>Ret\<close>.
\<close>

datatype panic = InterfaceConversion | NilDereference | IndexOutOfRange | ColumnLengthMismatch

datatype 'a outcome = Panic panic | Ret 'a

datatype code = CodeInternal | CodeQueryFailed

text \<open>
  Modelled from the spec: package \<^verbatim>\<open>pkg/errors\<close> is not among the sources. Its
  constructors \<^verbatim>\<open>errors.New(code, msg)\<close> and \<^verbatim>\<open>errors.Wrap(err, code, msg)\<close> are
  kept as constructors; \<open>DriverError\<close> is an error that comes from the cursor.
\<close>

datatype error = DriverError string | New code string | Wrap error code string

fun error_code :: "error \<Rightarrow> code option" where
  "error_code (DriverError m) = None"
| "error_code (New c m) = Some c"
| "error_code (Wrap e c m) = Some c"

type_synonym float64 = "64 word"

text \<open>
  Floats are carried as their IEEE-754 bit patterns. The narrowing conversion
  \<^verbatim>\<open>float32(x)\<close> is kept symbolic as \<open>Narrowed x\<close>.
\<close>

datatype float32 = Float32 "32 word" | Narrowed float64

text \<open>
  A \<^verbatim>\<open>time.Time\<close>: the instant as seconds since the Unix epoch plus nanoseconds within
  the second, and the offset of its location east of UTC in seconds.
\<close>

record gotime =
  unix_sec :: int
  nsec :: int
  zone_offset :: int

text \<open>The accessors of \<^verbatim>\<open>time.Time\<close> that the converter calls.\<close>

definition Unix :: "gotime \<Rightarrow> 64 word" where
  "Unix t = word_of_int (unix_sec t)"

definition UnixMilli :: "gotime \<Rightarrow> 64 word" where
  "UnixMilli t = word_of_int (unix_sec t) * 1000 + word_of_int (nsec t sdiv 1000000)"

definition UnixMicro :: "gotime \<Rightarrow> 64 word" where
  "UnixMicro t = word_of_int (unix_sec t) * 1000000 + word_of_int (nsec t sdiv 1000)"

definition Hour :: "gotime \<Rightarrow> int" where
  "Hour t = ((unix_sec t + zone_offset t) mod 86400) div 3600"

definition Minute :: "gotime \<Rightarrow> int" where
  "Minute t = ((unix_sec t + zone_offset t) mod 3600) div 60"

definition Second :: "gotime \<Rightarrow> int" where
  "Second t = (unix_sec t + zone_offset t) mod 60"

definition Nanosecond :: "gotime \<Rightarrow> int" where
  "Nanosecond t = nsec t"

text \<open>The dynamic contents of an \<^verbatim>\<open>interface{}\<close> cell.\<close>

datatype dyn =
    DNil
  | DBool bool
  | DInt64 "64 word"
  | DFloat64 float64
  | DString string
  | DBytes "8 word list"
  | DTime gotime
  | DInt "64 word"
  | DOther string

text \<open>
  A scan destination after \<^verbatim>\<open>rows.Scan\<close> has written to it, one constructor for each
  Go type the type switch of \<^verbatim>\<open>appendValue\<close> can meet. A pointer that may be nil is
  an option (\<open>None\<close> is nil). The \<^verbatim>\<open>sql.Null*\<close> structs carry the value and then the
  \<^verbatim>\<open>Valid\<close> flag. \<open>PPUint16\<close> is a \<^verbatim>\<open>**uint16\<close>, whose inner pointer may be nil.
\<close>

datatype scan_dest =
    PBool "bool option"
  | NullBool bool bool
  | PInt8 "8 word option"
  | PUint8 "8 word option"
  | NullByte "8 word" bool
  | PInt16 "16 word option"
  | PUint16 "16 word option"
  | NullInt16 "16 word" bool
  | PInt32 "32 word option"
  | PUint32 "32 word option"
  | NullInt32 "32 word" bool
  | PInt64 "64 word option"
  | PUint64 "64 word option"
  | NullInt64 "64 word" bool
  | PFloat32 "float32 option"
  | PFloat64 "float64 option"
  | NullFloat64 float64 bool
  | PString "string option"
  | NullString string bool
  | PBytes "8 word list option option"
  | PTime "gotime option"
  | NullTime gotime bool
  | PIface "dyn option"
  | PPUint16 "16 word option"
  | PPUint32 "32 word option"
  | PPUint64 "64 word option"
  | OtherDest string

subsection \<open>Arrow fields, builders and column values\<close>

datatype type_id =
    BOOL | INT8 | UINT8 | INT16 | UINT16 | INT32 | UINT32 | INT64 | UINT64
  | FLOAT32 | FLOAT64 | STRING | BINARY
  | DATE32 | DATE64 | TIME32 | TIME64 | TIMESTAMP
  | DECIMAL | DECIMAL256 | OTHER_TYPE string

record field =
  Name :: string
  Type :: type_id
  Nullable :: bool

datatype builder_type =
    BooleanBuilder | Int8Builder | Uint8Builder | Int16Builder | Uint16Builder
  | Int32Builder | Uint32Builder | Int64Builder | Uint64Builder
  | Float32Builder | Float64Builder | StringBuilder | BinaryBuilder
  | Date32Builder | Date64Builder | Time32Builder | Time64Builder | TimestampBuilder
  | Decimal128Builder | Decimal256Builder | OtherBuilder string

datatype arrow_val =
    ABool bool
  | AInt8 "8 word" | AUint8 "8 word"
  | AInt16 "16 word" | AUint16 "16 word"
  | AInt32 "32 word" | AUint32 "32 word"
  | AInt64 "64 word" | AUint64 "64 word"
  | AFloat32 float32 | AFloat64 float64
  | AString string | ABinary "8 word list"
  | ADate32 "32 word" | ADate64 "64 word"
  | ATime32 "32 word" | ATime64 "64 word"
  | ATimestamp "64 word"

text \<open>A column cell: \<open>None\<close> is an Arrow null.\<close>

type_synonym cell = "arrow_val option"

record field_builder =
  fb_type :: builder_type
  fb_vals :: "cell list"

text \<open>
  The builder that \<^verbatim>\<open>array.NewRecordBuilder\<close> of the Arrow library makes for a field
  of each type.
\<close>

fun builder_for :: "type_id \<Rightarrow> builder_type" where
  "builder_for BOOL = BooleanBuilder"
| "builder_for INT8 = Int8Builder"
| "builder_for UINT8 = Uint8Builder"
| "builder_for INT16 = Int16Builder"
| "builder_for UINT16 = Uint16Builder"
| "builder_for INT32 = Int32Builder"
| "builder_for UINT32 = Uint32Builder"
| "builder_for INT64 = Int64Builder"
| "builder_for UINT64 = Uint64Builder"
| "builder_for FLOAT32 = Float32Builder"
| "builder_for FLOAT64 = Float64Builder"
| "builder_for STRING = StringBuilder"
| "builder_for BINARY = BinaryBuilder"
| "builder_for DATE32 = Date32Builder"
| "builder_for DATE64 = Date64Builder"
| "builder_for TIME32 = Time32Builder"
| "builder_for TIME64 = Time64Builder"
| "builder_for TIMESTAMP = TimestampBuilder"
| "builder_for DECIMAL = Decimal128Builder"
| "builder_for DECIMAL256 = Decimal256Builder"
| "builder_for (OTHER_TYPE n) = OtherBuilder n"

definition AppendNull :: "field_builder \<Rightarrow> field_builder" where
  "AppendNull fb = fb\<lparr>fb_vals := fb_vals fb @ [None]\<rparr>"

definition Append :: "arrow_val \<Rightarrow> field_builder \<Rightarrow> field_builder" where
  "Append v fb = fb\<lparr>fb_vals := fb_vals fb @ [Some v]\<rparr>"

text \<open>
  \<^verbatim>\<open>fb.(*array.XBuilder).Append(v)\<close>: the single-valued type assertion panics when the
  builder is of another type.
\<close>

definition assert_append ::
  "builder_type \<Rightarrow> arrow_val \<Rightarrow> field_builder \<Rightarrow> (error option \<times> field_builder) outcome" where
  "assert_append T v fb =
     (if fb_type fb = T then Ret (None, Append v fb) else Panic InterfaceConversion)"

section \<open>The append paths\<close>

text \<open>\<^verbatim>\<open>appendTimeValue\<close>: a type switch on the builder, with a default that is an error.\<close>

definition appendTimeValue :: "field_builder \<Rightarrow> gotime \<Rightarrow> error option \<times> field_builder" where
  "appendTimeValue fb t =
     (case fb_type fb of
        Date32Builder \<Rightarrow>
          (None, Append (ADate32 (word_of_int (sint (Unix t) sdiv 86400))) fb)
      | Date64Builder \<Rightarrow>
          (None, Append (ADate64 (UnixMilli t)) fb)
      | Time32Builder \<Rightarrow>
          (None, Append (ATime32 (word_of_int (Hour t * 3600 + Minute t * 60 + Second t))) fb)
      | Time64Builder \<Rightarrow>
          (None, Append (ATime64 (word_of_int (Hour t) * 3600000000 + word_of_int (Minute t) * 60000000
                                  + word_of_int (Second t) * 1000000
                                  + word_of_int (Nanosecond t sdiv 1000))) fb)
      | TimestampBuilder \<Rightarrow>
          (None, Append (ATimestamp (UnixMicro t)) fb)
      | _ \<Rightarrow> (Some (New CodeInternal ''unexpected builder type for time value''), fb))"

text \<open>\<^verbatim>\<open>strconv.Itoa\<close> and \<^verbatim>\<open>toString\<close>.\<close>

fun nat_digits :: "nat \<Rightarrow> string" where
  "nat_digits n =
     (if n < 10 then [char_of (48 + n)]
      else nat_digits (n div 10) @ [char_of (48 + n mod 10)])"

declare nat_digits.simps [simp del]

definition Itoa :: "int \<Rightarrow> string" where
  "Itoa i = (if i < 0 then CHR ''-'' # nat_digits (nat (- i)) else nat_digits (nat i))"

text \<open>
  \<^verbatim>\<open>toString\<close>. A \<^verbatim>\<open>[]byte\<close> becomes the string of its bytes. The decimal text
  \<^verbatim>\<open>strconv.FormatFloat\<close> makes of a \<^verbatim>\<open>float64\<close> is not modelled, and \<open>toString\<close>
  has no equation for that case: \<^verbatim>\<open>appendDynamicValue\<close>, the only caller, matches
  \<^verbatim>\<open>float64\<close> before its default and never passes one on.
\<close>

fun toString :: "dyn \<Rightarrow> string" where
  "toString (DString s) = s"
| "toString (DBytes bs) = map (\<lambda>b. char_of (unat b)) bs"
| "toString (DInt i) = Itoa (sint i)"
| "toString (DInt64 i) = Itoa (sint i)"
| "toString (DBool b) = (if b then ''true'' else ''false'')"
| "toString DNil = []"
| "toString (DTime t) = []"
| "toString (DOther n) = []"

text \<open>\<^verbatim>\<open>appendDynamicValue\<close>: every typed case asserts the builder type unchecked.\<close>

fun appendDynamicValue :: "field_builder \<Rightarrow> dyn \<Rightarrow> (error option \<times> field_builder) outcome" where
  "appendDynamicValue fb DNil = Ret (None, AppendNull fb)"
| "appendDynamicValue fb (DBool v) = assert_append BooleanBuilder (ABool v) fb"
| "appendDynamicValue fb (DInt64 v) = assert_append Int64Builder (AInt64 v) fb"
| "appendDynamicValue fb (DFloat64 v) = assert_append Float64Builder (AFloat64 v) fb"
| "appendDynamicValue fb (DString v) = assert_append StringBuilder (AString v) fb"
| "appendDynamicValue fb (DBytes v) = assert_append BinaryBuilder (ABinary v) fb"
| "appendDynamicValue fb (DTime v) = Ret (appendTimeValue fb v)"
| "appendDynamicValue fb v = assert_append StringBuilder (AString (toString v)) fb"

text \<open>
  The type switch of \<^verbatim>\<open>appendValue\<close>, on the field builder \<^verbatim>\<open>fb\<close> it has looked up.
  A destination type with no case falls to the default, an Internal error that names the
  Go type.
\<close>

fun type_name :: "scan_dest \<Rightarrow> string" where
  "type_name (PBool _) = ''*bool''"
| "type_name (NullBool _ _) = ''*sql.NullBool''"
| "type_name (PInt8 _) = ''*int8''"
| "type_name (PUint8 _) = ''*uint8''"
| "type_name (NullByte _ _) = ''*sql.NullByte''"
| "type_name (PInt16 _) = ''*int16''"
| "type_name (PUint16 _) = ''*uint16''"
| "type_name (NullInt16 _ _) = ''*sql.NullInt16''"
| "type_name (PInt32 _) = ''*int32''"
| "type_name (PUint32 _) = ''*uint32''"
| "type_name (NullInt32 _ _) = ''*sql.NullInt32''"
| "type_name (PInt64 _) = ''*int64''"
| "type_name (PUint64 _) = ''*uint64''"
| "type_name (NullInt64 _ _) = ''*sql.NullInt64''"
| "type_name (PFloat32 _) = ''*float32''"
| "type_name (PFloat64 _) = ''*float64''"
| "type_name (NullFloat64 _ _) = ''*sql.NullFloat64''"
| "type_name (PString _) = ''*string''"
| "type_name (NullString _ _) = ''*sql.NullString''"
| "type_name (PBytes _) = ''*[]uint8''"
| "type_name (PTime _) = ''*time.Time''"
| "type_name (NullTime _ _) = ''*sql.NullTime''"
| "type_name (PIface _) = ''*interface {}''"
| "type_name (PPUint16 _) = ''**uint16''"
| "type_name (PPUint32 _) = ''**uint32''"
| "type_name (PPUint64 _) = ''**uint64''"
| "type_name (OtherDest n) = n"

fun appendScanned :: "field_builder \<Rightarrow> scan_dest \<Rightarrow> (error option \<times> field_builder) outcome" where
  "appendScanned fb (PBool v) =
     (case v of None \<Rightarrow> Ret (None, AppendNull fb)
      | Some x \<Rightarrow> assert_append BooleanBuilder (ABool x) fb)"
| "appendScanned fb (NullBool x valid) =
     (if \<not> valid then Ret (None, AppendNull fb) else assert_append BooleanBuilder (ABool x) fb)"
| "appendScanned fb (PInt8 v) =
     (case v of None \<Rightarrow> Ret (None, AppendNull fb)
      | Some x \<Rightarrow> assert_append Int8Builder (AInt8 x) fb)"
| "appendScanned fb (PUint8 v) =
     (case v of None \<Rightarrow> Ret (None, AppendNull fb)
      | Some x \<Rightarrow> assert_append Uint8Builder (AUint8 x) fb)"
| "appendScanned fb (NullByte x valid) =
     (if \<not> valid then Ret (None, AppendNull fb) else assert_append Uint8Builder (AUint8 x) fb)"
| "appendScanned fb (PInt16 v) =
     (case v of None \<Rightarrow> Ret (None, AppendNull fb)
      | Some x \<Rightarrow> assert_append Int16Builder (AInt16 x) fb)"
| "appendScanned fb (PUint16 v) =
     (case v of None \<Rightarrow> Ret (None, AppendNull fb)
      | Some x \<Rightarrow> assert_append Uint16Builder (AUint16 x) fb)"
| "appendScanned fb (NullInt16 x valid) =
     (if \<not> valid then Ret (None, AppendNull fb) else assert_append Int16Builder (AInt16 x) fb)"
| "appendScanned fb (PInt32 v) =
     (case v of None \<Rightarrow> Ret (None, AppendNull fb)
      | Some x \<Rightarrow> assert_append Int32Builder (AInt32 x) fb)"
| "appendScanned fb (PUint32 v) =
     (case v of None \<Rightarrow> Ret (None, AppendNull fb)
      | Some x \<Rightarrow> assert_append Uint32Builder (AUint32 x) fb)"
| "appendScanned fb (NullInt32 x valid) =
     (if \<not> valid then Ret (None, AppendNull fb) else assert_append Int32Builder (AInt32 x) fb)"
| "appendScanned fb (PInt64 v) =
     (case v of None \<Rightarrow> Ret (None, AppendNull fb)
      | Some x \<Rightarrow> assert_append Int64Builder (AInt64 x) fb)"
| "appendScanned fb (PUint64 v) =
     (case v of None \<Rightarrow> Ret (None, AppendNull fb)
      | Some x \<Rightarrow> assert_append Uint64Builder (AUint64 x) fb)"
| "appendScanned fb (NullInt64 x valid) =
     (if \<not> valid then Ret (None, AppendNull fb) else assert_append Int64Builder (AInt64 x) fb)"
| "appendScanned fb (PFloat32 v) =
     (case v of None \<Rightarrow> Ret (None, AppendNull fb)
      | Some x \<Rightarrow> assert_append Float32Builder (AFloat32 x) fb)"
| "appendScanned fb (PFloat64 v) =
     (case v of None \<Rightarrow> Ret (None, AppendNull fb)
      | Some x \<Rightarrow> assert_append Float64Builder (AFloat64 x) fb)"
| "appendScanned fb (NullFloat64 x valid) =
     (if \<not> valid then Ret (None, AppendNull fb)
      else (case fb_type fb of
              Float64Builder \<Rightarrow> Ret (None, Append (AFloat64 x) fb)
            | Float32Builder \<Rightarrow> Ret (None, Append (AFloat32 (Narrowed x)) fb)
            | _ \<Rightarrow> Ret (Some (New CodeInternal ''unexpected builder type for float''), fb)))"
| "appendScanned fb (PString v) =
     (case v of None \<Rightarrow> Ret (None, AppendNull fb)
      | Some x \<Rightarrow> assert_append StringBuilder (AString x) fb)"
| "appendScanned fb (NullString x valid) =
     (if \<not> valid then Ret (None, AppendNull fb) else assert_append StringBuilder (AString x) fb)"
| "appendScanned fb (PBytes v) =
     (case v of None \<Rightarrow> Ret (None, AppendNull fb)
      | Some None \<Rightarrow> Ret (None, AppendNull fb)
      | Some (Some x) \<Rightarrow> assert_append BinaryBuilder (ABinary x) fb)"
| "appendScanned fb (PTime v) =
     (case v of None \<Rightarrow> Ret (None, AppendNull fb)
      | Some t \<Rightarrow> Ret (appendTimeValue fb t))"
| "appendScanned fb (NullTime t valid) =
     (if \<not> valid then Ret (None, AppendNull fb) else Ret (appendTimeValue fb t))"
| "appendScanned fb (PIface v) =
     (case v of None \<Rightarrow> Ret (None, AppendNull fb)
      | Some DNil \<Rightarrow> Ret (None, AppendNull fb)
      | Some x \<Rightarrow> appendDynamicValue fb x)"
| "appendScanned fb d =
     Ret (Some (New CodeInternal (''unsupported scan type: '' @ type_name d)), fb)"

text \<open>
  \<^verbatim>\<open>createScanDest\<close>: the destination for a field, with its zero value. The zero
  \<^verbatim>\<open>time.Time\<close> is January 1 of year 1, 00:00 UTC, that is 62135596800 seconds
  before the Unix epoch.
\<close>

definition zero_time :: gotime where
  "zero_time = \<lparr>unix_sec = - 62135596800, nsec = 0, zone_offset = 0\<rparr>"

fun createScanDest :: "field \<Rightarrow> scan_dest" where
  "createScanDest f =
     (case Type f of
        BOOL \<Rightarrow> if Nullable f then NullBool False False else PBool (Some False)
      | INT8 \<Rightarrow> if Nullable f then NullByte 0 False else PInt8 (Some 0)
      | UINT8 \<Rightarrow> if Nullable f then NullByte 0 False else PUint8 (Some 0)
      | INT16 \<Rightarrow> if Nullable f then NullInt16 0 False else PInt16 (Some 0)
      | UINT16 \<Rightarrow> if Nullable f then PPUint16 None else PUint16 (Some 0)
      | INT32 \<Rightarrow> if Nullable f then NullInt32 0 False else PInt32 (Some 0)
      | UINT32 \<Rightarrow> if Nullable f then PPUint32 None else PUint32 (Some 0)
      | INT64 \<Rightarrow> if Nullable f then NullInt64 0 False else PInt64 (Some 0)
      | UINT64 \<Rightarrow> if Nullable f then PPUint64 None else PUint64 (Some 0)
      | FLOAT32 \<Rightarrow> if Nullable f then NullFloat64 0 False else PFloat32 (Some (Float32 0))
      | FLOAT64 \<Rightarrow> if Nullable f then NullFloat64 0 False else PFloat64 (Some 0)
      | STRING \<Rightarrow> if Nullable f then NullString [] False else PString (Some [])
      | BINARY \<Rightarrow> PBytes (Some None)
      | DATE32 \<Rightarrow> if Nullable f then NullTime zero_time False else PTime (Some zero_time)
      | DATE64 \<Rightarrow> if Nullable f then NullTime zero_time False else PTime (Some zero_time)
      | TIME32 \<Rightarrow> if Nullable f then NullTime zero_time False else PTime (Some zero_time)
      | TIME64 \<Rightarrow> if Nullable f then NullTime zero_time False else PTime (Some zero_time)
      | TIMESTAMP \<Rightarrow> if Nullable f then NullTime zero_time False else PTime (Some zero_time)
      | DECIMAL \<Rightarrow> if Nullable f then NullString [] False else PString (Some [])
      | DECIMAL256 \<Rightarrow> if Nullable f then NullString [] False else PString (Some [])
      | OTHER_TYPE n \<Rightarrow> PIface (Some DNil))"

section \<open>The cursor\<close>

text \<open>
  A \<^verbatim>\<open>*sql.Rows\<close> of the standard library. A row that has not been fetched yet is
  represented by what \<^verbatim>\<open>rows.Scan\<close> will do with it: fail with an error, or store
  values in the destinations. \<open>trailing\<close> is the error the driver reports when the rows
  run out (\<open>None\<close> is a clean end), \<open>lasterr\<close> is what \<^verbatim>\<open>rows.Err()\<close> returns.
\<close>

type_synonym scan_result = "error + scan_dest list"

record cursor =
  pending :: "scan_result list"
  current :: "scan_result option"
  trailing :: "error option"
  lasterr :: "error option"
  closed :: bool

definition rows_Next :: "cursor \<Rightarrow> bool \<times> cursor" where
  "rows_Next c =
     (if closed c then (False, c)
      else (case pending c of
              [] \<Rightarrow> (False, c\<lparr>current := None, lasterr := trailing c, closed := True\<rparr>)
            | x # xs \<Rightarrow> (True, c\<lparr>pending := xs, current := Some x\<rparr>)))"

definition rows_Err :: "cursor \<Rightarrow> error option" where
  "rows_Err c = lasterr c"

definition rows_Scan :: "cursor \<Rightarrow> scan_dest list \<Rightarrow> scan_result" where
  "rows_Scan c dest =
     (case current c of
        None \<Rightarrow> Inl (DriverError ''sql: Scan called without calling Next'')
      | Some res \<Rightarrow> res)"

section \<open>Reference-counted buffers, records and builders\<close>

text \<open>
  The store of the Arrow allocator. A column buffer lives at an address with its
  reference count and its cells; it is freed (leaves the map) when the count reaches
  zero. A \<^verbatim>\<open>RecordBuilder\<close> has an address too, live until it is released.
  \<open>next_addr\<close> is the next address the allocator hands out.
\<close>

record heap =
  next_addr :: nat
  bufs :: "nat \<rightharpoonup> (nat \<times> cell list)"
  live_builders :: "nat set"

text \<open>A column of a record: a window \<open>[c_off, c_off + c_len)\<close> over a buffer.\<close>

record column =
  c_buf :: nat
  c_off :: nat
  c_len :: nat

record arrow_record =
  rec_schema :: "field list"
  rec_cols :: "column list"
  NumRows :: int

record record_builder =
  b_addr :: nat
  b_schema :: "field list"
  b_fields :: "field_builder list"

definition retain_buf :: "nat \<Rightarrow> heap \<Rightarrow> heap" where
  "retain_buf a h =
     (case bufs h a of None \<Rightarrow> h
      | Some (n, d) \<Rightarrow> h\<lparr>bufs := (bufs h)(a \<mapsto> (Suc n, d))\<rparr>)"

definition release_buf :: "nat \<Rightarrow> heap \<Rightarrow> heap" where
  "release_buf a h =
     (case bufs h a of None \<Rightarrow> h
      | Some (n, d) \<Rightarrow>
          if n \<le> 1 then h\<lparr>bufs := (bufs h)(a := None)\<rparr>
          else h\<lparr>bufs := (bufs h)(a \<mapsto> (n - 1, d))\<rparr>)"

text \<open>
  \<^verbatim>\<open>record.Release()\<close> of a record that has one owner: every column gives up its
  reference to its buffer.
\<close>

definition Record_Release :: "heap \<Rightarrow> arrow_record \<Rightarrow> heap" where
  "Record_Release h rc = fold release_buf (map c_buf (rec_cols rc)) h"

text \<open>
  \<^verbatim>\<open>record.NewSlice(i, j)\<close>: a new record whose columns are windows over the same
  buffers, each buffer retained once more. The library panics on a range outside the
  column.
\<close>

definition slice_ok :: "column \<Rightarrow> int \<Rightarrow> int \<Rightarrow> bool" where
  "slice_ok c i j \<longleftrightarrow> 0 \<le> i \<and> i \<le> j \<and> j \<le> int (c_len c)"

definition slice_col :: "int \<Rightarrow> int \<Rightarrow> column \<Rightarrow> column" where
  "slice_col i j c = c\<lparr>c_off := c_off c + nat i, c_len := nat (j - i)\<rparr>"

definition NewSlice :: "heap \<Rightarrow> arrow_record \<Rightarrow> int \<Rightarrow> int \<Rightarrow> (arrow_record \<times> heap) outcome" where
  "NewSlice h rc i j =
     (if list_all (\<lambda>c. slice_ok c i j) (rec_cols rc)
      then Ret (rc\<lparr>rec_cols := map (slice_col i j) (rec_cols rc), NumRows := j - i\<rparr>,
                fold retain_buf (map c_buf (rec_cols rc)) h)
      else Panic IndexOutOfRange)"

text \<open>The cells a column shows, when its buffer is still allocated.\<close>

definition read_col :: "heap \<Rightarrow> column \<Rightarrow> cell list option" where
  "read_col h c =
     (case bufs h (c_buf c) of None \<Rightarrow> None
      | Some (n, d) \<Rightarrow> Some (take (c_len c) (drop (c_off c) d)))"

text \<open>
  \<^verbatim>\<open>array.NewRecordBuilder(allocator, schema)\<close>: a builder at a fresh address, with an
  empty field builder for each field of the schema; \<^verbatim>\<open>builder.Release()\<close> of a builder
  with one owner.
\<close>

definition new_field_builder :: "field \<Rightarrow> field_builder" where
  "new_field_builder f = \<lparr>fb_type = builder_for (Type f), fb_vals = []\<rparr>"

definition NewRecordBuilder :: "heap \<Rightarrow> field list \<Rightarrow> record_builder \<times> heap" where
  "NewRecordBuilder h sch =
     (\<lparr>b_addr = next_addr h, b_schema = sch, b_fields = map new_field_builder sch\<rparr>,
      h\<lparr>next_addr := Suc (next_addr h), live_builders := insert (next_addr h) (live_builders h)\<rparr>)"

definition Builder_Release :: "heap \<Rightarrow> record_builder \<Rightarrow> heap" where
  "Builder_Release h b = h\<lparr>live_builders := live_builders h - {b_addr b}\<rparr>"

text \<open>
  \<^verbatim>\<open>builder.NewRecord()\<close>: every field builder hands its cells over to a new buffer
  with one reference and is reset; the library panics when two columns differ in
  length, and takes the row count from the columns (zero when there is none).
\<close>

fun newRecord_rows :: "bool \<Rightarrow> int \<Rightarrow> nat list \<Rightarrow> int outcome" where
  "newRecord_rows first n [] = Ret n"
| "newRecord_rows first n (l # ls) =
     (if \<not> first \<and> int l \<noteq> n then Panic ColumnLengthMismatch
      else newRecord_rows False (int l) ls)"

fun alloc_cols :: "field_builder list \<Rightarrow> heap \<Rightarrow> column list \<times> heap" where
  "alloc_cols [] h = ([], h)"
| "alloc_cols (fb # fbs) h =
     (case alloc_cols fbs
             (h\<lparr>next_addr := Suc (next_addr h),
                bufs := (bufs h)(next_addr h \<mapsto> (1, fb_vals fb))\<rparr>) of
        (cs, h') \<Rightarrow>
          (\<lparr>c_buf = next_addr h, c_off = 0, c_len = length (fb_vals fb)\<rparr> # cs, h'))"

definition NewRecord :: "heap \<Rightarrow> record_builder \<Rightarrow> (arrow_record \<times> record_builder \<times> heap) outcome" where
  "NewRecord h b =
     (case newRecord_rows True 0 (map (\<lambda>fb. length (fb_vals fb)) (b_fields b)) of
        Panic p \<Rightarrow> Panic p
      | Ret n \<Rightarrow>
          (case alloc_cols (b_fields b) h of
             (cs, h') \<Rightarrow>
               Ret (\<lparr>rec_schema = b_schema b, rec_cols = cs, NumRows = n\<rparr>,
                    b\<lparr>b_fields := map (\<lambda>fb. fb\<lparr>fb_vals := []\<rparr>) (b_fields b)\<rparr>,
                    h')))"

section \<open>The BatchReader\<close>

text \<open>
  The struct, without the logger (debug output only) and with the allocator as the
  store that the operations take and return.
\<close>

record batch_reader =
  refCount :: int
  schema :: "field list"
  rows :: "cursor option"
  record' :: "arrow_record option"
  builder :: "record_builder option"
  err :: "error option"
  rowDest :: "scan_dest list"
  batchSize :: int

definition defaultBatchSize :: int where
  "defaultBatchSize = 1024"

definition NewBatchReaderWithSchema :: "heap \<Rightarrow> field list \<Rightarrow> cursor \<Rightarrow> batch_reader \<times> heap" where
  "NewBatchReaderWithSchema h sch c =
     (case NewRecordBuilder h sch of
        (b, h') \<Rightarrow>
          (\<lparr>refCount = 1, schema = sch, rows = Some c, record' = None, builder = Some b,
            err = None, rowDest = map createScanDest sch, batchSize = defaultBatchSize\<rparr>, h'))"

definition SetBatchSize :: "batch_reader \<Rightarrow> int \<Rightarrow> batch_reader" where
  "SetBatchSize r n = (if n > 0 then r\<lparr>batchSize := n\<rparr> else r)"

definition Schema :: "batch_reader \<Rightarrow> field list" where
  "Schema r = schema r"

definition Err :: "batch_reader \<Rightarrow> error option" where
  "Err r = err r"

definition Retain :: "batch_reader \<Rightarrow> batch_reader" where
  "Retain r = r\<lparr>refCount := refCount r + 1\<rparr>"

text \<open>
  \<^verbatim>\<open>cleanup\<close> closes the cursor and releases the builder; the current record is
  dropped from the reader without being released.
\<close>

definition cleanup :: "batch_reader \<times> heap \<Rightarrow> batch_reader \<times> heap" where
  "cleanup rh =
     (case rh of (r, h) \<Rightarrow>
        (r\<lparr>rows := None, builder := None, record' := None\<rparr>,
         (case builder r of None \<Rightarrow> h | Some b \<Rightarrow> Builder_Release h b)))"

definition Release :: "batch_reader \<times> heap \<Rightarrow> batch_reader \<times> heap" where
  "Release rh =
     (case rh of (r, h) \<Rightarrow>
        if refCount r - 1 = 0 then cleanup (r\<lparr>refCount := refCount r - 1\<rparr>, h)
        else (r\<lparr>refCount := refCount r - 1\<rparr>, h))"

text \<open>\<^verbatim>\<open>Record\<close>: nil without a current record, else a slice of all of its rows.\<close>

definition Record :: "batch_reader \<times> heap \<Rightarrow> (arrow_record option \<times> heap) outcome" where
  "Record rh =
     (case rh of (r, h) \<Rightarrow>
        (case record' r of
           None \<Rightarrow> Ret (None, h)
         | Some rc \<Rightarrow>
             (case NewSlice h rc 0 (NumRows rc) of
                Panic p \<Rightarrow> Panic p
              | Ret (s, h') \<Rightarrow> Ret (Some s, h'))))"

text \<open>
  \<^verbatim>\<open>appendValue\<close>: looks the field builder up in \<^verbatim>\<open>r.builder\<close>, the only field of
  the reader it uses, and runs the type switch on the scanned value.
\<close>

definition appendValue ::
  "record_builder option \<Rightarrow> nat \<Rightarrow> scan_dest \<Rightarrow> (error option \<times> record_builder) outcome" where
  "appendValue rb colIdx v =
     (case rb of
        None \<Rightarrow> Panic NilDereference
      | Some b \<Rightarrow>
          if colIdx < length (b_fields b) then
            (case appendScanned (b_fields b ! colIdx) v of
               Panic p \<Rightarrow> Panic p
             | Ret (e, fb') \<Rightarrow> Ret (e, b\<lparr>b_fields := (b_fields b)[colIdx := fb']\<rparr>))
          else Panic IndexOutOfRange)"

text \<open>
  The inner loop of \<^verbatim>\<open>Next\<close> over the destinations of one row. An error of
  \<^verbatim>\<open>appendValue\<close> is wrapped with the column index and ends the loop.
\<close>

fun appendRow ::
  "nat \<Rightarrow> scan_dest list \<Rightarrow> record_builder option \<Rightarrow> (error option \<times> record_builder option) outcome" where
  "appendRow colIdx [] rb = Ret (None, rb)"
| "appendRow colIdx (v # vs) rb =
     (case appendValue rb colIdx v of
        Panic p \<Rightarrow> Panic p
      | Ret (Some e, b') \<Rightarrow>
          Ret (Some (Wrap e CodeInternal
                 (''failed to append value for column '' @ Itoa (int colIdx))), Some b')
      | Ret (None, b') \<Rightarrow> appendRow (Suc colIdx) vs (Some b'))"

text \<open>
  The row loop of \<^verbatim>\<open>Next\<close>, \<^verbatim>\<open>for i := 0; i < r.batchSize; i++\<close>, with the counter
  \<^verbatim>\<open>rowsProcessedInBatch\<close> as \<open>n\<close>. The loop is left by a \<^verbatim>\<open>return false\<close> inside
  the body, by \<^verbatim>\<open>break\<close>, or when the condition fails.
\<close>

datatype loop_exit = ReturnFalse batch_reader | LoopDone int batch_reader

function readRows :: "int \<Rightarrow> int \<Rightarrow> batch_reader \<Rightarrow> loop_exit outcome" where
  "readRows i n r =
     (if i < batchSize r then
        (case rows r of
           None \<Rightarrow> Panic NilDereference
         | Some c \<Rightarrow>
             (case rows_Next c of
                (False, c') \<Rightarrow>
                  if i = 0 then Ret (ReturnFalse (r\<lparr>rows := Some c', err := rows_Err c'\<rparr>))
                  else Ret (LoopDone n (r\<lparr>rows := Some c'\<rparr>))
              | (True, c') \<Rightarrow>
                  (case rows_Scan c' (rowDest r) of
                     Inl e \<Rightarrow>
                       Ret (ReturnFalse (r\<lparr>rows := Some c',
                              err := Some (Wrap e CodeQueryFailed ''failed to scan row'')\<rparr>))
                   | Inr dests \<Rightarrow>
                       (case appendRow 0 dests (builder r) of
                          Panic p \<Rightarrow> Panic p
                        | Ret (Some e, rb) \<Rightarrow>
                            Ret (ReturnFalse (r\<lparr>rows := Some c', rowDest := dests,
                                   builder := rb, err := Some e\<rparr>))
                        | Ret (None, rb) \<Rightarrow>
                            readRows (i + 1) (n + 1)
                              (r\<lparr>rows := Some c', rowDest := dests, builder := rb\<rparr>)))))
      else Ret (LoopDone n r))"
  by pat_completeness auto
termination
  by (relation "measure (\<lambda>(i, n, r). nat (batchSize r - i))") auto

declare readRows.simps [simp del]

text \<open>
  \<^verbatim>\<open>Next\<close>. With an error already set it returns at once. Otherwise it releases the
  current record, releases the builder and makes a new one, runs the row loop, and on at
  least one row makes the record and checks the cursor's error.
\<close>

definition release_prior :: "batch_reader \<times> heap \<Rightarrow> batch_reader \<times> heap" where
  "release_prior rh =
     (case rh of (r, h) \<Rightarrow>
        (case record' r of
           None \<Rightarrow> (r, h)
         | Some rc \<Rightarrow> (r\<lparr>record' := None\<rparr>, Record_Release h rc)))"

definition renew_builder :: "batch_reader \<times> heap \<Rightarrow> batch_reader \<times> heap" where
  "renew_builder rh =
     (case rh of (r, h) \<Rightarrow>
        (case NewRecordBuilder
                (case builder r of None \<Rightarrow> h | Some b \<Rightarrow> Builder_Release h b) (schema r) of
           (b', h') \<Rightarrow> (r\<lparr>builder := Some b'\<rparr>, h')))"

definition finish_batch :: "loop_exit \<Rightarrow> heap \<Rightarrow> (bool \<times> batch_reader \<times> heap) outcome" where
  "finish_batch ex h =
     (case ex of
        ReturnFalse r \<Rightarrow> Ret (False, r, h)
      | LoopDone n r \<Rightarrow>
          if n > 0 then
            (case builder r of
               None \<Rightarrow> Panic NilDereference
             | Some b \<Rightarrow>
                 (case NewRecord h b of
                    Panic p \<Rightarrow> Panic p
                  | Ret (rc, b', h') \<Rightarrow>
                      (case rows r of
                         None \<Rightarrow> Panic NilDereference
                       | Some c \<Rightarrow>
                           (case rows_Err c of
                              Some e \<Rightarrow>
                                Ret (False, r\<lparr>record' := Some rc, builder := Some b', err := Some e\<rparr>, h')
                            | None \<Rightarrow>
                                Ret (True, r\<lparr>record' := Some rc, builder := Some b'\<rparr>, h')))))
          else Ret (False, r, h))"

definition Next :: "batch_reader \<times> heap \<Rightarrow> (bool \<times> batch_reader \<times> heap) outcome" where
  "Next rh =
     (if err (fst rh) \<noteq> None then Ret (False, fst rh, snd rh)
      else (case renew_builder (release_prior rh) of
              (r, h) \<Rightarrow>
                (case readRows 0 0 r of
                   Panic p \<Rightarrow> Panic p
                 | Ret ex \<Rightarrow> finish_batch ex h)))"

section \<open>Reference quantities and example inputs\<close>

text \<open>
  The units the specification names for temporal columns, written from its words: the
  day that contains an instant, counted from the Unix epoch, and the seconds of the
  wall clock since midnight.
\<close>

definition days_since_epoch :: "gotime \<Rightarrow> int" where
  "days_since_epoch t = unix_sec t div 86400"

definition seconds_since_midnight :: "gotime \<Rightarrow> int" where
  "seconds_since_midnight t = (unix_sec t + zone_offset t) mod 86400"

definition millis_since_epoch :: "gotime \<Rightarrow> int" where
  "millis_since_epoch t = unix_sec t * 1000 + nsec t div 1000000"

definition micros_since_epoch :: "gotime \<Rightarrow> int" where
  "micros_since_epoch t = unix_sec t * 1000000 + nsec t div 1000"

definition micros_since_midnight :: "gotime \<Rightarrow> int" where
  "micros_since_midnight t = seconds_since_midnight t * 1000000 + nsec t div 1000"

text \<open>Noon of 1969-12-31 in UTC, half a day before the epoch.\<close>

definition noon_before_epoch :: gotime where
  "noon_before_epoch = \<lparr>unix_sec = - 43200, nsec = 0, zone_offset = 0\<rparr>"

definition int64_field :: field where
  "int64_field = \<lparr>Name = ''a'', Type = INT64, Nullable = True\<rparr>"

definition empty_heap :: heap where
  "empty_heap = \<lparr>next_addr = 0, bufs = Map.empty, live_builders = {}\<rparr>"

definition cursor_of :: "scan_result list \<Rightarrow> error option \<Rightarrow> cursor" where
  "cursor_of xs e = \<lparr>pending = xs, current = None, trailing = e, lasterr = None, closed = False\<rparr>"

text \<open>
  A reader over one nullable INT64 column whose destination has been replaced by a
  dynamic slot, and whose cursor stores a string in it.
\<close>

definition forced_reader :: "batch_reader \<times> heap" where
  "forced_reader =
     (case NewBatchReaderWithSchema empty_heap [int64_field]
             (cursor_of [Inr [PIface (Some (DString ''x''))]] None) of
        (r, h) \<Rightarrow> (r\<lparr>rowDest := [PIface (Some DNil)]\<rparr>, h))"

text \<open>A reader that has met a cursor error.\<close>

definition failed_reader :: "batch_reader \<times> heap" where
  "failed_reader =
     (case NewBatchReaderWithSchema empty_heap [int64_field] (cursor_of [] None) of
        (r, h) \<Rightarrow> (r\<lparr>err := Some (DriverError ''connection lost'')\<rparr>, h))"

text \<open>
  The cell that \<^verbatim>\<open>appendValue\<close> adds to a builder of type \<open>T\<close> for a scanned value, when
  it neither fails nor panics: read off a run of the type switch on an empty builder.
\<close>

definition scanned_cell :: "builder_type \<Rightarrow> scan_dest \<Rightarrow> cell option" where
  "scanned_cell T d =
     (case appendScanned \<lparr>fb_type = T, fb_vals = []\<rparr> d of
        Ret (None, fb') \<Rightarrow> (case fb_vals fb' of [c] \<Rightarrow> Some c | _ \<Rightarrow> None)
      | _ \<Rightarrow> None)"

fun row_cells :: "builder_type list \<Rightarrow> scan_dest list \<Rightarrow> cell list option" where
  "row_cells [] [] = Some []"
| "row_cells (T # Ts) (d # ds) =
     (case scanned_cell T d of
        None \<Rightarrow> None
      | Some c \<Rightarrow> map_option ((#) c) (row_cells Ts ds))"
| "row_cells _ _ = None"

definition good_row :: "builder_type list \<Rightarrow> scan_result \<Rightarrow> cell list option" where
  "good_row Ts x = (case x of Inl e \<Rightarrow> None | Inr ds \<Rightarrow> row_cells Ts ds)"

definition add_cell :: "field_builder \<Rightarrow> cell \<Rightarrow> field_builder" where
  "add_cell fb c = fb\<lparr>fb_vals := fb_vals fb @ [c]\<rparr>"

definition add_row :: "field_builder list \<Rightarrow> cell list \<Rightarrow> field_builder list" where
  "add_row fs cs = map2 add_cell fs cs"

text \<open>The reference count of a buffer; a freed buffer has none.\<close>

definition refcount :: "heap \<Rightarrow> nat \<Rightarrow> nat" where
  "refcount h a = (case bufs h a of None \<Rightarrow> 0 | Some (n, d) \<Rightarrow> n)"

text \<open>
  Reading a record back from the store: every column must still be allocated and show
  \<open>NumRows\<close> cells; the rows are the cells of the columns at each row index.
\<close>

definition col_complete :: "heap \<Rightarrow> int \<Rightarrow> column \<Rightarrow> bool" where
  "col_complete h n c =
     (case read_col h c of None \<Rightarrow> False | Some d \<Rightarrow> int (length d) = n)"

definition cell_at :: "heap \<Rightarrow> nat \<Rightarrow> column \<Rightarrow> cell" where
  "cell_at h i c = (case read_col h c of None \<Rightarrow> None | Some d \<Rightarrow> d ! i)"

definition record_rows :: "heap \<Rightarrow> arrow_record \<Rightarrow> cell list list option" where
  "record_rows h rc =
     (if list_all (col_complete h (NumRows rc)) (rec_cols rc)
      then Some (map (\<lambda>i. map (cell_at h i) (rec_cols rc)) [0..<nat (NumRows rc)])
      else None)"

text \<open>The builder types of a schema, in column order.\<close>

definition schema_builders :: "field list \<Rightarrow> builder_type list" where
  "schema_builders sch = map (\<lambda>f. builder_for (Type f)) sch"

text \<open>What a call of \<^verbatim>\<open>Next\<close> returned, and the reader it left.\<close>

definition returned :: "(bool \<times> batch_reader \<times> heap) outcome \<Rightarrow> bool option" where
  "returned x = (case x of Panic p \<Rightarrow> None | Ret (ok, r, h) \<Rightarrow> Some ok)"

definition reader_after :: "(bool \<times> batch_reader \<times> heap) outcome \<Rightarrow> batch_reader option" where
  "reader_after x = (case x of Panic p \<Rightarrow> None | Ret (ok, r, h) \<Rightarrow> Some r)"

definition has_record :: "batch_reader \<Rightarrow> bool" where
  "has_record r \<longleftrightarrow> record' r \<noteq> None"

text \<open>
  The third scenario of the specification: a nullable INT64 and a nullable STRING
  column, and the rows \<open>(1, "x")\<close>, \<open>(NULL, "y")\<close>, \<open>(2, NULL)\<close> as a successful scan
  leaves them in the destinations.
\<close>

definition string_field :: field where
  "string_field = \<lparr>Name = ''b'', Type = STRING, Nullable = True\<rparr>"

definition two_columns :: "field list" where
  "two_columns = [int64_field, string_field]"

definition three_rows :: "scan_result list" where
  "three_rows =
     [Inr [NullInt64 1 True, NullString ''x'' True],
      Inr [NullInt64 0 False, NullString ''y'' True],
      Inr [NullInt64 2 True, NullString [] False]]"

definition three_rows_cells :: "cell list list" where
  "three_rows_cells =
     [[Some (AInt64 1), Some (AString ''x'')],
      [None, Some (AString ''y'')],
      [Some (AInt64 2), None]]"

definition example_reader :: "scan_result list \<Rightarrow> error option \<Rightarrow> int \<Rightarrow> batch_reader \<times> heap" where
  "example_reader xs e n =
     (case NewBatchReaderWithSchema empty_heap two_columns (cursor_of xs e) of
        (r, h) \<Rightarrow> (SetBatchSize r n, h))"

definition connection_lost :: error where
  "connection_lost = DriverError ''connection lost''"




text \<open>
  The batches the specification expects for rows \<open>xs\<close> and batch size \<open>B\<close>: the rows
  in order, cut after every \<open>B\<close> rows.
\<close>

fun chunks :: "nat \<Rightarrow> 'a list \<Rightarrow> 'a list list" where
  "chunks B xs = (if B = 0 \<or> xs = [] then [] else take B xs # chunks B (drop B xs))"

declare chunks.simps [simp del]

definition exit_reader :: "loop_exit \<Rightarrow> batch_reader" where
  "exit_reader ex = (case ex of ReturnFalse r \<Rightarrow> r | LoopDone n r \<Rightarrow> r)"

text \<open>
  A reader over one nullable INT64 column with batch size 1 and two rows, and the state
  its first call of \<^verbatim>\<open>Next\<close> leaves: the current record holds the only reference to
  the buffer at address 2, the builder lives at address 1, and the cursor has one more
  row.
\<close>

definition two_row_reader :: "batch_reader \<times> heap" where
  "two_row_reader =
     (case NewBatchReaderWithSchema empty_heap [int64_field]
             (cursor_of [Inr [NullInt64 1 True], Inr [NullInt64 7 True]] None) of
        (r, h) \<Rightarrow> (SetBatchSize r 1, h))"

definition held_record :: arrow_record where
  "held_record = \<lparr>rec_schema = [int64_field],
                   rec_cols = [\<lparr>c_buf = 2, c_off = 0, c_len = 1\<rparr>], NumRows = 1\<rparr>"

definition held_cursor :: cursor where
  "held_cursor = \<lparr>pending = [Inr [NullInt64 7 True]], current = Some (Inr [NullInt64 1 True]),
                   trailing = None, lasterr = None, closed = False\<rparr>"

definition held_reader :: batch_reader where
  "held_reader =
     \<lparr>refCount = 1, schema = [int64_field], rows = Some held_cursor,
      record' = Some held_record,
      builder = Some \<lparr>b_addr = 1, b_schema = [int64_field],
                      b_fields = [\<lparr>fb_type = Int64Builder, fb_vals = []\<rparr>]\<rparr>,
      err = None, rowDest = [NullInt64 1 True], batchSize = 1\<rparr>"

definition held_heap :: heap where
  "held_heap = \<lparr>next_addr = 3, bufs = [2 \<mapsto> (1, [Some (AInt64 1)])], live_builders = {1}\<rparr>"







section \<open>Unfolding the row loop\<close>

lemma readRows_exit:
  "\<not> i < batchSize r \<Longrightarrow> readRows i n r = Ret (LoopDone n r)"
  by (subst readRows.simps) simp

lemma readRows_end:
  assumes "i < batchSize r" "rows r = Some c" "rows_Next c = (False, c')"
  shows "readRows i n r =
     (if i = 0 then Ret (ReturnFalse (r\<lparr>rows := Some c', err := rows_Err c'\<rparr>))
      else Ret (LoopDone n (r\<lparr>rows := Some c'\<rparr>)))"
  using assms by (subst readRows.simps) simp

lemma readRows_scan_error:
  assumes "i < batchSize r" "rows r = Some c" "rows_Next c = (True, c')"
    "rows_Scan c' (rowDest r) = Inl e"
  shows "readRows i n r =
     Ret (ReturnFalse (r\<lparr>rows := Some c',
            err := Some (Wrap e CodeQueryFailed ''failed to scan row'')\<rparr>))"
  using assms by (subst readRows.simps) simp

lemma readRows_fetch:
  assumes "i < batchSize r" "rows r = Some c" "rows_Next c = (True, c')"
    "rows_Scan c' (rowDest r) = Inr dests"
  shows "readRows i n r =
     (case appendRow 0 dests (builder r) of
        Panic p \<Rightarrow> Panic p
      | Ret (Some e, rb) \<Rightarrow>
          Ret (ReturnFalse (r\<lparr>rows := Some c', rowDest := dests, builder := rb, err := Some e\<rparr>))
      | Ret (None, rb) \<Rightarrow>
          readRows (i + 1) (n + 1) (r\<lparr>rows := Some c', rowDest := dests, builder := rb\<rparr>))"
  using assms by (subst readRows.simps) simp

section \<open>Type mismatches in the append paths\<close>

lemma dynamic_time_mismatch_is_error:
  "appendScanned \<lparr>fb_type = Int64Builder, fb_vals = vs\<rparr> (PIface (Some (DTime t))) =
     Ret (Some (New CodeInternal ''unexpected builder type for time value''),
          \<lparr>fb_type = Int64Builder, fb_vals = vs\<rparr>)"
  by (simp add: appendTimeValue_def)

lemma forced_reader_loop_panics:
  "readRows 0 0 (fst (renew_builder (release_prior forced_reader))) = Panic InterfaceConversion"
proof -
  let ?row = "Inr [PIface (Some (DString ''x''))] :: scan_result"
  let ?c = "cursor_of [?row] None"
  show ?thesis
    by (subst readRows_fetch [where c = ?c and c' = "?c\<lparr>pending := [], current := Some ?row\<rparr>"
          and dests = "[PIface (Some (DString ''x''))]"])
       (simp_all add: forced_reader_def NewBatchReaderWithSchema_def NewRecordBuilder_def
          empty_heap_def release_prior_def renew_builder_def Builder_Release_def
          defaultBatchSize_def cursor_of_def rows_Next_def rows_Scan_def appendValue_def
          new_field_builder_def int64_field_def assert_append_def)
qed

text \<open>
  C5. A value whose runtime type does not fit the column's builder should make
  \<^verbatim>\<open>Next\<close> return false with an Internal error "unexpected builder type". The code
  does so only for time values and nullable floats. A string that arrives through a
  dynamic slot at an INT64 builder meets the unchecked assertion
  \<^verbatim>\<open>fb.(*array.StringBuilder)\<close>: \<^verbatim>\<open>appendDynamicValue\<close> panics, and so does \<^verbatim>\<open>Next\<close>.
\<close>

theorem string_into_int64_builder_panics:
  "appendDynamicValue \<lparr>fb_type = Int64Builder, fb_vals = vs\<rparr> (DString s) = Panic InterfaceConversion
   \<and> appendScanned \<lparr>fb_type = Int64Builder, fb_vals = vs\<rparr> (PIface (Some (DString s)))
       = Panic InterfaceConversion
   \<and> Next forced_reader = Panic InterfaceConversion"
proof -
  obtain r h where rh: "renew_builder (release_prior forced_reader) = (r, h)"
    by (cases "renew_builder (release_prior forced_reader)")
  have e: "err (fst forced_reader) = None"
    by (simp add: forced_reader_def NewBatchReaderWithSchema_def NewRecordBuilder_def)
  have "readRows 0 0 r = Panic InterfaceConversion"
    using forced_reader_loop_panics rh by simp
  with rh e have "Next forced_reader = Panic InterfaceConversion"
    by (simp add: Next_def)
  then show ?thesis by (simp add: assert_append_def)
qed

section \<open>Scan destinations of nullable integer columns\<close>

text \<open>
  C6. For a nullable UINT16, UINT32 or UINT64 column \<^verbatim>\<open>createScanDest\<close> makes a
  pointer-to-pointer slot (\<^verbatim>\<open>new(*uint16)\<close>), but the type switch of \<^verbatim>\<open>appendValue\<close> has
  no case for \<^verbatim>\<open>**uint16\<close>: whatever the scan stored, absent or present, the append
  returns the Internal error "unsupported scan type" and appends nothing.
\<close>

theorem nullable_unsigned_slot_is_unsupported:
  "createScanDest \<lparr>Name = n, Type = UINT16, Nullable = True\<rparr> = PPUint16 None
   \<and> createScanDest \<lparr>Name = n, Type = UINT32, Nullable = True\<rparr> = PPUint32 None
   \<and> createScanDest \<lparr>Name = n, Type = UINT64, Nullable = True\<rparr> = PPUint64 None
   \<and> appendScanned \<lparr>fb_type = builder_for UINT16, fb_vals = vs\<rparr> (PPUint16 v16)
       = Ret (Some (New CodeInternal ''unsupported scan type: **uint16''),
              \<lparr>fb_type = Uint16Builder, fb_vals = vs\<rparr>)
   \<and> appendScanned \<lparr>fb_type = builder_for UINT32, fb_vals = vs\<rparr> (PPUint32 v32)
       = Ret (Some (New CodeInternal ''unsupported scan type: **uint32''),
              \<lparr>fb_type = Uint32Builder, fb_vals = vs\<rparr>)
   \<and> appendScanned \<lparr>fb_type = builder_for UINT64, fb_vals = vs\<rparr> (PPUint64 v64)
       = Ret (Some (New CodeInternal ''unsupported scan type: **uint64''),
              \<lparr>fb_type = Uint64Builder, fb_vals = vs\<rparr>)"
  by simp

text \<open>
  C7. For a nullable INT8 column \<^verbatim>\<open>createScanDest\<close> makes a \<^verbatim>\<open>sql.NullByte\<close>, the
  unsigned slot. Its case in \<^verbatim>\<open>appendValue\<close> asserts a \<^verbatim>\<open>*array.Uint8Builder\<close>, while
  the column's builder is an \<^verbatim>\<open>*array.Int8Builder\<close>: a valid value panics. Only the
  null is appended.
\<close>

theorem nullable_int8_valid_value_panics:
  "createScanDest \<lparr>Name = n, Type = INT8, Nullable = True\<rparr> = NullByte 0 False
   \<and> appendScanned \<lparr>fb_type = builder_for INT8, fb_vals = vs\<rparr> (NullByte x True)
       = Panic InterfaceConversion
   \<and> appendScanned \<lparr>fb_type = builder_for INT8, fb_vals = vs\<rparr> (NullByte x False)
       = Ret (None, \<lparr>fb_type = Int8Builder, fb_vals = vs @ [None]\<rparr>)"
  by (simp add: assert_append_def AppendNull_def)

section \<open>Temporal appends\<close>

lemma hms_recompose:
  "((x::int) mod 86400) div 3600 * 3600 + (x mod 3600) div 60 * 60 + x mod 60 = x mod 86400"
proof -
  have a: "(x mod 86400) mod 3600 = x mod 3600"
    by (rule mod_mod_cancel) simp
  have b: "(x mod 3600) mod 60 = x mod 60"
    by (rule mod_mod_cancel) simp
  have "x mod 86400 = (x mod 86400) div 3600 * 3600 + (x mod 86400) mod 3600"
    by (rule div_mult_mod_eq [symmetric])
  also have "(x mod 86400) mod 3600 = (x mod 3600) div 60 * 60 + (x mod 3600) mod 60"
    unfolding a by (rule div_mult_mod_eq [symmetric])
  finally show ?thesis using b by simp
qed

text \<open>TIME32 stores the seconds of the wall clock since midnight.\<close>

lemma time32_seconds_since_midnight:
  "appendTimeValue \<lparr>fb_type = Time32Builder, fb_vals = vs\<rparr> t
     = (None, \<lparr>fb_type = Time32Builder,
               fb_vals = vs @ [Some (ATime32 (word_of_int (seconds_since_midnight t)))]\<rparr>)"
  by (simp add: appendTimeValue_def Append_def Hour_def Minute_def Second_def
      seconds_since_midnight_def hms_recompose)

text \<open>DATE32 stores the day of an instant that is not before the epoch.\<close>

lemma date32_from_epoch_on:
  assumes "0 \<le> unix_sec t" "unix_sec t < 2 ^ 63"
  shows "appendTimeValue \<lparr>fb_type = Date32Builder, fb_vals = vs\<rparr> t
     = (None, \<lparr>fb_type = Date32Builder,
               fb_vals = vs @ [Some (ADate32 (word_of_int (days_since_epoch t)))]\<rparr>)"
proof -
  have "sint (Unix t) = unix_sec t"
    using assms unfolding Unix_def by (simp add: sint_sbintrunc' signed_take_bit_int_eq_self)
  moreover have "unix_sec t sdiv 86400 = unix_sec t div 86400"
    using assms(1) by (simp add: signed_divide_int_def sgn_if)
  ultimately show ?thesis
    by (simp add: appendTimeValue_def Append_def days_since_epoch_def)
qed

text \<open>
  DATE64, TIME64 and TIMESTAMP store the instant in their unit, as 64-bit values: the
  milliseconds and microseconds since the epoch, and the microseconds of the wall clock
  since midnight.
\<close>

lemma sdiv_nonneg: "0 \<le> (a::int) \<Longrightarrow> 0 < b \<Longrightarrow> a sdiv b = a div b"
  by (simp add: signed_divide_int_def sgn_if)

lemma date64_millis:
  assumes "0 \<le> nsec t"
  shows "appendTimeValue \<lparr>fb_type = Date64Builder, fb_vals = vs\<rparr> t
     = (None, \<lparr>fb_type = Date64Builder,
               fb_vals = vs @ [Some (ADate64 (word_of_int (millis_since_epoch t)))]\<rparr>)"
  using assms
  by (simp add: appendTimeValue_def Append_def UnixMilli_def millis_since_epoch_def sdiv_nonneg)

lemma timestamp_micros:
  assumes "0 \<le> nsec t"
  shows "appendTimeValue \<lparr>fb_type = TimestampBuilder, fb_vals = vs\<rparr> t
     = (None, \<lparr>fb_type = TimestampBuilder,
               fb_vals = vs @ [Some (ATimestamp (word_of_int (micros_since_epoch t)))]\<rparr>)"
  using assms
  by (simp add: appendTimeValue_def Append_def UnixMicro_def micros_since_epoch_def sdiv_nonneg)

lemma time64_micros_since_midnight:
  assumes "0 \<le> nsec t"
  shows "appendTimeValue \<lparr>fb_type = Time64Builder, fb_vals = vs\<rparr> t
     = (None, \<lparr>fb_type = Time64Builder,
               fb_vals = vs @ [Some (ATime64 (word_of_int (micros_since_midnight t)))]\<rparr>)"
proof -
  have "(word_of_int (Hour t) * 3600000000 + word_of_int (Minute t) * 60000000
          + word_of_int (Second t) * 1000000 + word_of_int (Nanosecond t sdiv 1000) :: 64 word)
      = word_of_int ((Hour t * 3600 + Minute t * 60 + Second t) * 1000000 + nsec t div 1000)"
    using assms by (simp add: Nanosecond_def sdiv_nonneg algebra_simps)
  also have "Hour t * 3600 + Minute t * 60 + Second t = seconds_since_midnight t"
    by (simp add: Hour_def Minute_def Second_def seconds_since_midnight_def hms_recompose)
  finally show ?thesis
    by (simp add: appendTimeValue_def Append_def micros_since_midnight_def)
qed

text \<open>
  C8. A temporal append should store the instant in the column's unit, for DATE32 the
  number of days since the Unix epoch. \<^verbatim>\<open>appendTimeValue\<close> computes
  \<^verbatim>\<open>int32(t.Unix() / 86400)\<close>, and Go's division truncates towards zero: for noon of
  1969-12-31, which lies in day \<open>-1\<close>, it stores day \<open>0\<close>, that is 1970-01-01.
\<close>

theorem date32_before_epoch_is_a_day_late:
  "appendTimeValue \<lparr>fb_type = Date32Builder, fb_vals = []\<rparr> noon_before_epoch
     = (None, \<lparr>fb_type = Date32Builder, fb_vals = [Some (ADate32 0)]\<rparr>)
   \<and> days_since_epoch noon_before_epoch = - 1"
  by (simp add: appendTimeValue_def noon_before_epoch_def days_since_epoch_def Unix_def
      Append_def signed_divide_int_def)

section \<open>The error state\<close>

text \<open>
  C10. The error is sticky: once \<^verbatim>\<open>Err\<close> is not nil, \<^verbatim>\<open>Next\<close> returns false at once
  and leaves the reader (its cursor, current record, builder and error) and the store
  as they are.
\<close>

theorem Next_sticky_error:
  "Err r \<noteq> None \<Longrightarrow> Next (r, h) = Ret (False, r, h)"
  by (simp add: Next_def Err_def)

theorem Next_sticky_error_witness:
  "Err (fst failed_reader) \<noteq> None
   \<and> Next failed_reader = Ret (False, fst failed_reader, snd failed_reader)"
  using Next_sticky_error [of "fst failed_reader" "snd failed_reader"]
  by (simp add: Err_def failed_reader_def NewBatchReaderWithSchema_def NewRecordBuilder_def)

section \<open>The append paths add one cell\<close>

lemma appendTimeValue_uniform:
  "appendTimeValue \<lparr>fb_type = T, fb_vals = vs\<rparr> t =
     (case appendTimeValue \<lparr>fb_type = T, fb_vals = []\<rparr> t of
        (e, fb0) \<Rightarrow> (e, \<lparr>fb_type = T, fb_vals = vs @ fb_vals fb0\<rparr>))"
  by (simp add: appendTimeValue_def Append_def split: builder_type.splits)

lemma assert_append_uniform:
  "assert_append U v \<lparr>fb_type = T, fb_vals = vs\<rparr> =
     (case assert_append U v \<lparr>fb_type = T, fb_vals = []\<rparr> of
        Panic p \<Rightarrow> Panic p
      | Ret (e, fb0) \<Rightarrow> Ret (e, \<lparr>fb_type = T, fb_vals = vs @ fb_vals fb0\<rparr>))"
  by (simp add: assert_append_def Append_def)

lemma appendDynamicValue_uniform:
  "appendDynamicValue \<lparr>fb_type = T, fb_vals = vs\<rparr> x =
     (case appendDynamicValue \<lparr>fb_type = T, fb_vals = []\<rparr> x of
        Panic p \<Rightarrow> Panic p
      | Ret (e, fb0) \<Rightarrow> Ret (e, \<lparr>fb_type = T, fb_vals = vs @ fb_vals fb0\<rparr>))"
proof (cases x)
  case (DTime t)
  show ?thesis unfolding DTime appendDynamicValue.simps
    by (subst appendTimeValue_uniform) (simp split: prod.splits)
qed (simp_all add: AppendNull_def assert_append_def Append_def)

lemma null_uniform:
  "Ret (None, AppendNull \<lparr>fb_type = T, fb_vals = vs\<rparr>) =
     (case Ret (None, AppendNull \<lparr>fb_type = T, fb_vals = []\<rparr>) of
        Panic p \<Rightarrow> Panic p
      | Ret (e, fb0) \<Rightarrow> Ret (e, \<lparr>fb_type = T, fb_vals = vs @ fb_vals fb0\<rparr>))"
  by (simp add: AppendNull_def)

lemma uniform_PTime:
  "appendScanned \<lparr>fb_type = T, fb_vals = vs\<rparr> (PTime v) =
     (case appendScanned \<lparr>fb_type = T, fb_vals = []\<rparr> (PTime v) of
        Panic p \<Rightarrow> Panic p
      | Ret (e, fb0) \<Rightarrow> Ret (e, \<lparr>fb_type = T, fb_vals = vs @ fb_vals fb0\<rparr>))"
proof (cases v)
  case None
  then show ?thesis by (simp add: AppendNull_def)
next
  case (Some t)
  obtain e fb0 where r: "appendTimeValue \<lparr>fb_type = T, fb_vals = []\<rparr> t = (e, fb0)"
    by (cases "appendTimeValue \<lparr>fb_type = T, fb_vals = []\<rparr> t")
  have "appendTimeValue \<lparr>fb_type = T, fb_vals = vs\<rparr> t = (e, \<lparr>fb_type = T, fb_vals = vs @ fb_vals fb0\<rparr>)"
    by (subst appendTimeValue_uniform) (simp add: r)
  with r Some show ?thesis by simp
qed

lemma uniform_NullTime:
  "appendScanned \<lparr>fb_type = T, fb_vals = vs\<rparr> (NullTime t valid) =
     (case appendScanned \<lparr>fb_type = T, fb_vals = []\<rparr> (NullTime t valid) of
        Panic p \<Rightarrow> Panic p
      | Ret (e, fb0) \<Rightarrow> Ret (e, \<lparr>fb_type = T, fb_vals = vs @ fb_vals fb0\<rparr>))"
proof (cases valid)
  case False
  then show ?thesis by (simp add: AppendNull_def)
next
  case True
  obtain e fb0 where r: "appendTimeValue \<lparr>fb_type = T, fb_vals = []\<rparr> t = (e, fb0)"
    by (cases "appendTimeValue \<lparr>fb_type = T, fb_vals = []\<rparr> t")
  have "appendTimeValue \<lparr>fb_type = T, fb_vals = vs\<rparr> t = (e, \<lparr>fb_type = T, fb_vals = vs @ fb_vals fb0\<rparr>)"
    by (subst appendTimeValue_uniform) (simp add: r)
  with r True show ?thesis by simp
qed

lemma uniform_PIface:
  "appendScanned \<lparr>fb_type = T, fb_vals = vs\<rparr> (PIface v) =
     (case appendScanned \<lparr>fb_type = T, fb_vals = []\<rparr> (PIface v) of
        Panic p \<Rightarrow> Panic p
      | Ret (e, fb0) \<Rightarrow> Ret (e, \<lparr>fb_type = T, fb_vals = vs @ fb_vals fb0\<rparr>))"
proof (cases v)
  case None
  then show ?thesis by (simp add: AppendNull_def)
next
  case (Some x)
  show ?thesis
  proof (cases "x = DNil")
    case True
    then show ?thesis unfolding Some by (simp add: AppendNull_def)
  next
    case False
    then have "\<And>fb. appendScanned fb (PIface (Some x)) = appendDynamicValue fb x"
      by (cases x) simp_all
    then show ?thesis unfolding Some
      using appendDynamicValue_uniform [of T vs x] by simp
  qed
qed

lemma uniform_NullFloat64:
  "appendScanned \<lparr>fb_type = T, fb_vals = vs\<rparr> (NullFloat64 x valid) =
     (case appendScanned \<lparr>fb_type = T, fb_vals = []\<rparr> (NullFloat64 x valid) of
        Panic p \<Rightarrow> Panic p
      | Ret (e, fb0) \<Rightarrow> Ret (e, \<lparr>fb_type = T, fb_vals = vs @ fb_vals fb0\<rparr>))"
  by (cases T) (simp_all add: AppendNull_def Append_def)

lemma appendScanned_uniform:
  "appendScanned \<lparr>fb_type = T, fb_vals = vs\<rparr> d =
     (case appendScanned \<lparr>fb_type = T, fb_vals = []\<rparr> d of
        Panic p \<Rightarrow> Panic p
      | Ret (e, fb0) \<Rightarrow> Ret (e, \<lparr>fb_type = T, fb_vals = vs @ fb_vals fb0\<rparr>))"
proof (cases d)
  case (PTime v)
  show ?thesis unfolding PTime by (rule uniform_PTime)
next
  case (NullTime t valid)
  show ?thesis unfolding NullTime by (rule uniform_NullTime)
next
  case (PIface v)
  show ?thesis unfolding PIface by (rule uniform_PIface)
next
  case (NullFloat64 x valid)
  show ?thesis unfolding NullFloat64 by (rule uniform_NullFloat64)
qed (simp_all add: AppendNull_def assert_append_def Append_def split: option.splits)

lemma appendScanned_cell:
  assumes "scanned_cell (fb_type fb) d = Some c"
  shows "appendScanned fb d = Ret (None, add_cell fb c)"
proof -
  obtain T vs where fb: "fb = \<lparr>fb_type = T, fb_vals = vs\<rparr>" by (cases fb) simp
  from assms fb obtain fb0 where
    a: "appendScanned \<lparr>fb_type = T, fb_vals = []\<rparr> d = Ret (None, fb0)" and b: "fb_vals fb0 = [c]"
    by (auto simp: scanned_cell_def split: outcome.splits option.splits list.splits)
  show ?thesis
    unfolding fb by (subst appendScanned_uniform) (simp add: a b add_cell_def)
qed

section \<open>One row, then a batch of rows\<close>

lemma row_cells_length:
  "row_cells Ts ds = Some cs \<Longrightarrow> length cs = length Ts \<and> length ds = length Ts"
  by (induction Ts ds arbitrary: cs rule: row_cells.induct) (auto split: option.splits)

lemma add_row_types:
  "length cs = length fs \<Longrightarrow> map fb_type (add_row fs cs) = map fb_type fs"
  by (induction fs cs rule: list_induct2') (simp_all add: add_row_def add_cell_def)

lemma add_row_length:
  "length cs = length fs \<Longrightarrow> length (add_row fs cs) = length fs"
  by (simp add: add_row_def)

lemma appendValue_ok:
  assumes "j < length (b_fields b)" "scanned_cell (fb_type (b_fields b ! j)) d = Some c"
  shows "appendValue (Some b) j d =
           Ret (None, b\<lparr>b_fields := (b_fields b)[j := add_cell (b_fields b ! j) c]\<rparr>)"
  using assms by (simp add: appendValue_def appendScanned_cell)

lemma appendRow_ok:
  "row_cells (map fb_type (drop j (b_fields b))) ds = Some cs \<Longrightarrow>
   appendRow j ds (Some b) =
     Ret (None, Some (b\<lparr>b_fields := take j (b_fields b) @ add_row (drop j (b_fields b)) cs\<rparr>))"
proof (induction ds arbitrary: j b cs)
  case Nil
  then have d: "drop j (b_fields b) = []" and c: "cs = []"
    by (cases "drop j (b_fields b)"; simp)+
  from d have "take j (b_fields b) = b_fields b" by simp
  with c show ?case by (simp add: add_row_def)
next
  case (Cons d ds)
  let ?fs = "b_fields b"
  from Cons.prems obtain f rest where dr: "drop j ?fs = f # rest"
    by (cases "drop j ?fs") simp_all
  then have j: "j < length ?fs"
    by (metis drop_all list.distinct(1) not_le)
  have f: "?fs ! j = f" using dr by (metis nth_via_drop)
  have rest: "drop (Suc j) ?fs = rest"
    using dr j by (metis Cons_nth_drop_Suc list.inject)
  from Cons.prems dr obtain c cs' where
    sc: "scanned_cell (fb_type f) d = Some c" and
    rc: "row_cells (map fb_type rest) ds = Some cs'" and
    cs: "cs = c # cs'"
    by (auto split: option.splits)
  let ?b1 = "b\<lparr>b_fields := ?fs[j := add_cell f c]\<rparr>"
  have av: "appendValue (Some b) j d = Ret (None, ?b1)"
    using appendValue_ok [OF j] sc f by simp
  have d1: "drop (Suc j) (b_fields ?b1) = rest"
    using rest by simp
  have t1: "take (Suc j) (b_fields ?b1) = take j ?fs @ [add_cell f c]"
    using j by (simp add: take_Suc_conv_app_nth)
  have "appendRow (Suc j) ds (Some ?b1) =
     Ret (None, Some (?b1\<lparr>b_fields := take (Suc j) (b_fields ?b1)
                         @ add_row (drop (Suc j) (b_fields ?b1)) cs'\<rparr>))"
    by (rule Cons.IH) (simp only: d1 rc)
  then have "appendRow (Suc j) ds (Some ?b1) =
     Ret (None, Some (b\<lparr>b_fields := take j ?fs @ add_cell f c # add_row rest cs'\<rparr>))"
    by (simp only: d1 t1) simp
  moreover have "add_row (drop j ?fs) cs = add_cell f c # add_row rest cs'"
    by (simp add: dr cs add_row_def)
  ultimately show ?case using av by simp
qed

lemma appendRow_whole:
  assumes "row_cells (map fb_type (b_fields b)) ds = Some cs"
  shows "appendRow 0 ds (Some b) = Ret (None, Some (b\<lparr>b_fields := add_row (b_fields b) cs\<rparr>))"
  using appendRow_ok [of 0 b ds cs] assms by simp

lemma reader_same_builder:
  "builder r = Some b \<Longrightarrow> r\<lparr>rows := x, builder := Some b\<rparr> = r\<lparr>rows := x\<rparr>"
  by (cases r) simp

lemma reader_same:
  "builder r = Some b \<Longrightarrow> rows r = Some c \<Longrightarrow> r\<lparr>rows := Some c, builder := Some b\<rparr> = r"
  by (cases r) simp

lemma readRows_run:
  assumes "rows r = Some c" "\<not> closed c" "builder r = Some b" "0 \<le> i"
    "i \<noteq> 0 \<or> pending c \<noteq> []"
    "map (good_row (map fb_type (b_fields b))) (take (nat (batchSize r - i)) (pending c))
       = map Some css"
  shows "\<exists>c' ds. readRows i n r =
           Ret (LoopDone (n + int (length css))
                  (r\<lparr>rows := Some c', rowDest := ds,
                     builder := Some (b\<lparr>b_fields := foldl add_row (b_fields b) css\<rparr>)\<rparr>))
         \<and> pending c' = drop (nat (batchSize r - i)) (pending c)
         \<and> trailing c' = trailing c
         \<and> lasterr c' = (if length (pending c) < nat (batchSize r - i) then trailing c else lasterr c)
         \<and> closed c' = (length (pending c) < nat (batchSize r - i))"
  using assms
proof (induction xs \<equiv> "pending c" arbitrary: i n r c b css)
  case Nil
  then have ipos: "0 < i" and css: "css = []" by auto
  note same = reader_same_builder [OF Nil.prems(3)]
  show ?case
  proof (cases "i < batchSize r")
    case True
    let ?c' = "c\<lparr>current := None, lasterr := trailing c, closed := True\<rparr>"
    have nx: "rows_Next c = (False, ?c')"
      using Nil by (simp add: rows_Next_def)
    have "readRows i n r = Ret (LoopDone n (r\<lparr>rows := Some ?c'\<rparr>))"
      using readRows_end [OF True Nil.prems(1) nx] ipos by simp
    then have "readRows i n r =
           Ret (LoopDone (n + int (length css))
                  (r\<lparr>rows := Some ?c', rowDest := rowDest r,
                     builder := Some (b\<lparr>b_fields := foldl add_row (b_fields b) css\<rparr>)\<rparr>))"
      by (simp add: css same)
    moreover have "pending ?c' = drop (nat (batchSize r - i)) (pending c)"
      using Nil.hyps by simp
    moreover have "length (pending c) < nat (batchSize r - i)"
      using Nil.hyps True by simp
    ultimately show ?thesis by (intro exI [of _ ?c'] exI [of _ "rowDest r"]) simp
  next
    case False
    have "readRows i n r = Ret (LoopDone n r)" using False by (rule readRows_exit)
    moreover have "r = r\<lparr>rows := Some c, rowDest := rowDest r,
                     builder := Some (b\<lparr>b_fields := foldl add_row (b_fields b) css\<rparr>)\<rparr>"
      using reader_same [OF Nil.prems(3) Nil.prems(1)] css by simp
    moreover have "nat (batchSize r - i) = 0" using False by simp
    ultimately show ?thesis
      using Nil.prems(2) css by (intro exI [of _ c] exI [of _ "rowDest r"]) simp
  qed
next
  case (Cons x xs)
  show ?case
  proof (cases "i < batchSize r")
    case False
    then have k: "nat (batchSize r - i) = 0" by simp
    with Cons.prems have css: "css = []" by simp
    have "readRows i n r = Ret (LoopDone n r)" using False by (rule readRows_exit)
    moreover have "r = r\<lparr>rows := Some c, rowDest := rowDest r,
                     builder := Some (b\<lparr>b_fields := foldl add_row (b_fields b) css\<rparr>)\<rparr>"
      using reader_same [OF Cons.prems(3) Cons.prems(1)] css by simp
    ultimately show ?thesis
      using Cons.prems(2) css k by (intro exI [of _ c] exI [of _ "rowDest r"]) simp
  next
    case True
    let ?k' = "nat (batchSize r - (i + 1))"
    have k: "nat (batchSize r - i) = Suc ?k'" using True by simp
    have pc: "pending c = x # xs" using Cons.hyps(2) by simp
    from Cons.prems(6) obtain cs css' where
      css: "css = cs # css'" and
      gx: "good_row (map fb_type (b_fields b)) x = Some cs" and
      gr: "map (good_row (map fb_type (b_fields b))) (take ?k' xs) = map Some css'"
      unfolding k pc by (cases css) auto
    from gx obtain ds where x: "x = Inr ds" and
      rc: "row_cells (map fb_type (b_fields b)) ds = Some cs"
      by (cases x) (simp_all add: good_row_def)
    let ?c1 = "c\<lparr>pending := xs, current := Some x\<rparr>"
    let ?b1 = "b\<lparr>b_fields := add_row (b_fields b) cs\<rparr>"
    let ?r1 = "r\<lparr>rows := Some ?c1, rowDest := ds, builder := Some ?b1\<rparr>"
    have nx: "rows_Next c = (True, ?c1)"
      using Cons.prems(2) pc by (simp add: rows_Next_def)
    have scn: "rows_Scan ?c1 (rowDest r) = Inr ds"
      by (simp add: rows_Scan_def x)
    have ap: "appendRow 0 ds (builder r) = Ret (None, Some ?b1)"
      using appendRow_whole [OF rc] Cons.prems(3) by simp
    have step: "readRows i n r = readRows (i + 1) (n + 1) ?r1"
      using readRows_fetch [OF True Cons.prems(1) nx scn] ap by simp
    have len: "length cs = length (b_fields b)"
      using row_cells_length [OF rc] by simp
    have ty: "map fb_type (b_fields ?b1) = map fb_type (b_fields b)"
      using add_row_types [OF len] by simp
    have "\<exists>c' ds'. readRows (i + 1) (n + 1) ?r1 =
           Ret (LoopDone (n + 1 + int (length css'))
                  (?r1\<lparr>rows := Some c', rowDest := ds',
                     builder := Some (?b1\<lparr>b_fields := foldl add_row (b_fields ?b1) css'\<rparr>)\<rparr>))
         \<and> pending c' = drop (nat (batchSize ?r1 - (i + 1))) (pending ?c1)
         \<and> trailing c' = trailing ?c1
         \<and> lasterr c' = (if length (pending ?c1) < nat (batchSize ?r1 - (i + 1))
                           then trailing ?c1 else lasterr ?c1)
         \<and> closed c' = (length (pending ?c1) < nat (batchSize ?r1 - (i + 1)))"
    proof (rule Cons.hyps(1))
      show "xs = pending ?c1" by simp
      show "rows ?r1 = Some ?c1" by simp
      show "\<not> closed ?c1" using Cons.prems(2) by simp
      show "builder ?r1 = Some ?b1" by simp
      show "0 \<le> i + 1" using Cons.prems(4) by simp
      show "i + 1 \<noteq> 0 \<or> pending ?c1 \<noteq> []" using Cons.prems(4) by simp
      show "map (good_row (map fb_type (b_fields ?b1))) (take (nat (batchSize ?r1 - (i + 1))) (pending ?c1))
              = map Some css'"
        unfolding ty using gr by simp
    qed
    then obtain c' ds' where
      rr: "readRows (i + 1) (n + 1) ?r1 =
           Ret (LoopDone (n + 1 + int (length css'))
                  (?r1\<lparr>rows := Some c', rowDest := ds',
                     builder := Some (?b1\<lparr>b_fields := foldl add_row (b_fields ?b1) css'\<rparr>)\<rparr>))"
      and p: "pending c' = drop ?k' xs"
      and t: "trailing c' = trailing c"
      and l: "lasterr c' = (if length xs < ?k' then trailing c else lasterr c)"
      and cl: "closed c' = (length xs < ?k')"
      by auto
    have "readRows i n r =
           Ret (LoopDone (n + int (length css))
                  (r\<lparr>rows := Some c', rowDest := ds',
                     builder := Some (b\<lparr>b_fields := foldl add_row (b_fields b) css\<rparr>)\<rparr>))"
      unfolding step rr css by simp
    then show ?thesis
      using p t l cl unfolding k pc by (intro exI [of _ c'] exI [of _ ds']) simp
  qed
qed

section \<open>Making the record of a batch\<close>

lemma alloc_cols_frame:
  "alloc_cols fs h = (cs, h') \<Longrightarrow>
     next_addr h' = next_addr h + length fs \<and> live_builders h' = live_builders h
     \<and> (\<forall>a. a < next_addr h \<longrightarrow> bufs h' a = bufs h a)
     \<and> (\<forall>c \<in> set cs. next_addr h \<le> c_buf c \<and> c_buf c < next_addr h')
     \<and> length cs = length fs"
proof (induction fs arbitrary: h cs h')
  case Nil
  then show ?case by simp
next
  case (Cons fb fbs)
  let ?h1 = "h\<lparr>next_addr := Suc (next_addr h),
               bufs := (bufs h)(next_addr h \<mapsto> (1, fb_vals fb))\<rparr>"
  obtain cs1 h1 where r: "alloc_cols fbs ?h1 = (cs1, h1)"
    by (cases "alloc_cols fbs ?h1")
  from Cons.prems r have cs: "cs = \<lparr>c_buf = next_addr h, c_off = 0, c_len = length (fb_vals fb)\<rparr> # cs1"
    and h': "h' = h1" by simp_all
  from Cons.IH [OF r] show ?case unfolding cs h' by auto
qed

lemma alloc_cols_read:
  "alloc_cols fs h = (cs, h') \<Longrightarrow> map (read_col h') cs = map (\<lambda>fb. Some (fb_vals fb)) fs"
proof (induction fs arbitrary: h cs h')
  case Nil
  then show ?case by simp
next
  case (Cons fb fbs)
  let ?h1 = "h\<lparr>next_addr := Suc (next_addr h),
               bufs := (bufs h)(next_addr h \<mapsto> (1, fb_vals fb))\<rparr>"
  obtain cs1 h1 where r: "alloc_cols fbs ?h1 = (cs1, h1)"
    by (cases "alloc_cols fbs ?h1")
  from Cons.prems r have cs: "cs = \<lparr>c_buf = next_addr h, c_off = 0, c_len = length (fb_vals fb)\<rparr> # cs1"
    and h': "h' = h1" by simp_all
  have "bufs h1 (next_addr h) = bufs ?h1 (next_addr h)"
    using alloc_cols_frame [OF r] by simp
  then have "read_col h1 \<lparr>c_buf = next_addr h, c_off = 0, c_len = length (fb_vals fb)\<rparr>
      = Some (fb_vals fb)"
    by (simp add: read_col_def)
  with Cons.IH [OF r] show ?case unfolding cs h' by simp
qed

lemma newRecord_rows_uniform:
  "\<forall>l \<in> set ls. l = m \<Longrightarrow> first \<or> n = int m \<Longrightarrow>
   newRecord_rows first n ls = Ret (if ls = [] then n else int m)"
  by (induction ls arbitrary: first n) auto

lemma foldl_add_row_length:
  "\<forall>cs \<in> set css. length cs = length fs \<Longrightarrow> length (foldl add_row fs css) = length fs"
  by (induction css arbitrary: fs) (simp_all add: add_row_length)

lemma add_row_nth_vals:
  "length cs = length fs \<Longrightarrow> j < length fs \<Longrightarrow>
   fb_vals (add_row fs cs ! j) = fb_vals (fs ! j) @ [cs ! j]"
  by (simp add: add_row_def add_cell_def)

lemma foldl_add_row_vals:
  "\<forall>cs \<in> set css. length cs = length fs \<Longrightarrow> j < length fs \<Longrightarrow>
   fb_vals (foldl add_row fs css ! j) = fb_vals (fs ! j) @ map (\<lambda>cs. cs ! j) css"
proof (induction css arbitrary: fs)
  case Nil
  then show ?case by simp
next
  case (Cons cs css)
  have l: "length cs = length fs" using Cons.prems by simp
  have "fb_vals (foldl add_row (add_row fs cs) css ! j)
      = fb_vals (add_row fs cs ! j) @ map (\<lambda>cs. cs ! j) css"
    using Cons.prems l by (intro Cons.IH) (simp_all add: add_row_length)
  then show ?case using add_row_nth_vals [OF l Cons.prems(2)] by simp
qed

lemma NewRecord_rows:
  assumes len: "\<forall>cs \<in> set css. length cs = length (b_fields b)"
    and ne: "b_fields b \<noteq> []"
    and fresh: "\<forall>fb \<in> set (b_fields b). fb_vals fb = []"
  shows "\<exists>rc b' h'. NewRecord h (b\<lparr>b_fields := foldl add_row (b_fields b) css\<rparr>) = Ret (rc, b', h')
     \<and> record_rows h' rc = Some css \<and> NumRows rc = int (length css)
     \<and> rec_schema rc = b_schema b"
proof -
  let ?fs = "foldl add_row (b_fields b) css"
  let ?k = "length (b_fields b)"
  have lfs: "length ?fs = ?k" using len by (rule foldl_add_row_length)
  have vals: "fb_vals (?fs ! j) = map (\<lambda>cs. cs ! j) css" if "j < ?k" for j
    using foldl_add_row_vals [OF len that] fresh that by simp
  have lens: "\<forall>l \<in> set (map (\<lambda>fb. length (fb_vals fb)) ?fs). l = length css"
  proof
    fix l assume "l \<in> set (map (\<lambda>fb. length (fb_vals fb)) ?fs)"
    then obtain j where "j < ?k" "l = length (fb_vals (?fs ! j))"
      using lfs by (auto simp: in_set_conv_nth)
    then show "l = length css" using vals by simp
  qed
  have fsne: "?fs \<noteq> []" using lfs ne by auto
  have nr: "newRecord_rows True 0 (map (\<lambda>fb. length (fb_vals fb)) ?fs) = Ret (int (length css))"
    using newRecord_rows_uniform [OF lens, of True 0] fsne by simp
  obtain cs h' where al: "alloc_cols ?fs h = (cs, h')" by (cases "alloc_cols ?fs h")
  let ?rc = "\<lparr>rec_schema = b_schema b, rec_cols = cs, NumRows = int (length css)\<rparr>"
  have nrec: "NewRecord h (b\<lparr>b_fields := ?fs\<rparr>) =
      Ret (?rc, b\<lparr>b_fields := map (\<lambda>fb. fb\<lparr>fb_vals := []\<rparr>) ?fs\<rparr>, h')"
    by (simp add: NewRecord_def nr al)
  have rd: "map (read_col h') cs = map (\<lambda>fb. Some (fb_vals fb)) ?fs"
    using al by (rule alloc_cols_read)
  have lcs: "length cs = ?k" using alloc_cols_frame [OF al] lfs by simp
  have rdj: "read_col h' (cs ! j) = Some (map (\<lambda>cs. cs ! j) css)" if "j < ?k" for j
  proof -
    have "read_col h' (cs ! j) = map (read_col h') cs ! j" using that lcs by simp
    also have "\<dots> = Some (fb_vals (?fs ! j))" unfolding rd using that lfs by simp
    finally show ?thesis using vals [OF that] by simp
  qed
  have compl: "list_all (col_complete h' (int (length css))) cs"
    unfolding list_all_length using rdj lcs by (simp add: col_complete_def)
  have "map (\<lambda>i. map (cell_at h' i) cs) [0..<length css] = css"
  proof (rule nth_equalityI)
    show "length (map (\<lambda>i. map (cell_at h' i) cs) [0..<length css]) = length css" by simp
  next
    fix i assume "i < length (map (\<lambda>i. map (cell_at h' i) cs) [0..<length css])"
    then have i: "i < length css" by simp
    then have li: "length (css ! i) = ?k" using len by simp
    have "map (cell_at h' i) cs = css ! i"
    proof (rule nth_equalityI)
      show "length (map (cell_at h' i) cs) = length (css ! i)" using lcs li by simp
    next
      fix j assume "j < length (map (cell_at h' i) cs)"
      then have j: "j < ?k" using lcs by simp
      then show "map (cell_at h' i) cs ! j = css ! i ! j"
        using rdj [OF j] i lcs by (simp add: cell_at_def)
    qed
    then show "map (\<lambda>i. map (cell_at h' i) cs) [0..<length css] ! i = css ! i"
      using i by simp
  qed
  then have "record_rows h' ?rc = Some css"
    using compl by (simp add: record_rows_def)
  with nrec show ?thesis by simp
qed

section \<open>One call of Next\<close>

lemma release_buf_frame:
  "next_addr (release_buf a h) = next_addr h \<and> live_builders (release_buf a h) = live_builders h"
  by (simp add: release_buf_def split: option.splits prod.splits)

lemma fold_release_frame:
  "next_addr (fold release_buf as h) = next_addr h
   \<and> live_builders (fold release_buf as h) = live_builders h"
  by (induction as arbitrary: h) (simp_all add: release_buf_frame)

lemma Record_Release_frame:
  "next_addr (Record_Release h rc) = next_addr h
   \<and> live_builders (Record_Release h rc) = live_builders h"
  by (simp add: Record_Release_def fold_release_frame)

lemma renew_release:
  assumes "renew_builder (release_prior (r, h)) = (r0, h0)"
  shows "record' r0 = None \<and> rows r0 = rows r \<and> err r0 = err r \<and> batchSize r0 = batchSize r
     \<and> schema r0 = schema r \<and> rowDest r0 = rowDest r \<and> refCount r0 = refCount r
     \<and> (\<exists>b0. builder r0 = Some b0 \<and> b_fields b0 = map new_field_builder (schema r)
            \<and> b_schema b0 = schema r \<and> b_addr b0 = next_addr h)"
  using assms
  by (auto simp: release_prior_def renew_builder_def NewRecordBuilder_def Builder_Release_def
      Record_Release_frame split: option.splits)

lemma good_rows_lengths:
  assumes "map (good_row Ts) xs = map Some css" "cs \<in> set css"
  shows "length cs = length Ts"
proof -
  from assms(2) have "Some cs \<in> set (map Some css)" by simp
  then have "Some cs \<in> set (map (good_row Ts) xs)" using assms(1) by simp
  then obtain x where "good_row Ts x = Some cs" by auto
  then show ?thesis
    by (cases x) (simp_all add: good_row_def row_cells_length)
qed

text \<open>
  A call of \<^verbatim>\<open>Next\<close> on a reader without an error, whose cursor still has a row and
  whose next rows scan and append: the batch holds the cells of the rows fetched, and
  the call returns true unless the cursor reports an error when it runs out.
\<close>

lemma Next_batch:
  assumes e: "err r = None" and c: "rows r = Some c" and op: "\<not> closed c"
    and le: "lasterr c = None" and ne: "pending c \<noteq> []" and bs: "0 < batchSize r"
    and sch: "schema r \<noteq> []"
    and good: "map (good_row (schema_builders (schema r))) (take (nat (batchSize r)) (pending c))
                 = map Some css"
  shows "\<exists>r' h' rc c'.
     Next (r, h) = Ret (length (pending c) < nat (batchSize r) \<longrightarrow> trailing c = None, r', h')
     \<and> record' r' = Some rc \<and> record_rows h' rc = Some css
     \<and> NumRows rc = int (length css) \<and> rec_schema rc = schema r
     \<and> rows r' = Some c' \<and> pending c' = drop (nat (batchSize r)) (pending c)
     \<and> trailing c' = trailing c
     \<and> lasterr c' = (if length (pending c) < nat (batchSize r) then trailing c else None)
     \<and> closed c' = (length (pending c) < nat (batchSize r))
     \<and> err r' = (if length (pending c) < nat (batchSize r) then trailing c else None)
     \<and> schema r' = schema r \<and> batchSize r' = batchSize r"
proof -
  obtain r0 h0 where rr: "renew_builder (release_prior (r, h)) = (r0, h0)"
    by (cases "renew_builder (release_prior (r, h))")
  from renew_release [OF rr] obtain b0 where
    f0: "record' r0 = None" "rows r0 = rows r" "err r0 = err r" "batchSize r0 = batchSize r"
        "schema r0 = schema r"
    and b0: "builder r0 = Some b0" "b_fields b0 = map new_field_builder (schema r)"
        "b_schema b0 = schema r"
    by auto
  have ty: "map fb_type (b_fields b0) = schema_builders (schema r)"
    by (simp add: b0 schema_builders_def new_field_builder_def comp_def)
  have good0: "map (good_row (map fb_type (b_fields b0))) (take (nat (batchSize r0 - 0)) (pending c))
      = map Some css"
    using good by (simp add: ty f0)
  from readRows_run [of r0 c b0 0 css 0, OF _ op b0(1) _ _ good0] c ne f0
  obtain c' ds where
    run: "readRows 0 0 r0 = Ret (LoopDone (int (length css))
             (r0\<lparr>rows := Some c', rowDest := ds,
                  builder := Some (b0\<lparr>b_fields := foldl add_row (b_fields b0) css\<rparr>)\<rparr>))"
    and c': "pending c' = drop (nat (batchSize r)) (pending c)" "trailing c' = trailing c"
        "lasterr c' = (if length (pending c) < nat (batchSize r) then trailing c else lasterr c)"
        "closed c' = (length (pending c) < nat (batchSize r))"
    by auto
  have "length css = length (take (nat (batchSize r)) (pending c))"
    using good by (metis length_map)
  then have pos: "0 < length css" using ne bs by (cases "pending c") simp_all
  have len: "\<forall>cs \<in> set css. length cs = length (b_fields b0)"
    using good_rows_lengths [OF good] by (simp add: b0 schema_builders_def)
  have fne: "b_fields b0 \<noteq> []" using sch by (simp add: b0)
  have fresh: "\<forall>fb \<in> set (b_fields b0). fb_vals fb = []"
    by (auto simp: b0 new_field_builder_def)
  from NewRecord_rows [OF len fne fresh, of h0] obtain rc b' h' where
    nr: "NewRecord h0 (b0\<lparr>b_fields := foldl add_row (b_fields b0) css\<rparr>) = Ret (rc, b', h')"
    and rc: "record_rows h' rc = Some css" "NumRows rc = int (length css)"
        "rec_schema rc = b_schema b0"
    by blast
  let ?r1 = "r0\<lparr>rows := Some c', rowDest := ds,
                  builder := Some (b0\<lparr>b_fields := foldl add_row (b_fields b0) css\<rparr>)\<rparr>"
  let ?e = "if length (pending c) < nat (batchSize r) then trailing c else None"
  have er: "rows_Err c' = ?e" using c'(3) le by (simp add: rows_Err_def)
  have fin: "finish_batch (LoopDone (int (length css)) ?r1) h0 =
     Ret (?e = None, ?r1\<lparr>record' := Some rc, builder := Some b', err := ?e\<rparr>, h')"
  proof (cases ?e)
    case None
    then have "?r1\<lparr>record' := Some rc, builder := Some b', err := ?e\<rparr>
        = ?r1\<lparr>record' := Some rc, builder := Some b'\<rparr>"
      using f0(3) e by (cases r0) simp
    then show ?thesis using None pos nr er by (simp add: finish_batch_def)
  next
    case (Some a)
    then show ?thesis using pos nr er by (simp add: finish_batch_def)
  qed
  have "Next (r, h) = Ret (?e = None, ?r1\<lparr>record' := Some rc, builder := Some b', err := ?e\<rparr>, h')"
    using e rr run fin by (simp add: Next_def)
  moreover have "(?e = None) = (length (pending c) < nat (batchSize r) \<longrightarrow> trailing c = None)"
    by simp
  ultimately show ?thesis
    using rc c' le f0 b0(3)
    by (intro exI [of _ "?r1\<lparr>record' := Some rc, builder := Some b', err := ?e\<rparr>"]
              exI [of _ h'] exI [of _ rc] exI [of _ c']) simp
qed

text \<open>A call of \<^verbatim>\<open>Next\<close> whose first fetch finds no row.\<close>

lemma Next_end:
  assumes e: "err r = None" and c: "rows r = Some c" and bs: "0 < batchSize r"
    and no: "fst (rows_Next c) = False"
  shows "\<exists>r' h'. Next (r, h) = Ret (False, r', h')
     \<and> err r' = rows_Err (snd (rows_Next c)) \<and> record' r' = None"
proof -
  obtain r0 h0 where rr: "renew_builder (release_prior (r, h)) = (r0, h0)"
    by (cases "renew_builder (release_prior (r, h))")
  from renew_release [OF rr] have
    f0: "record' r0 = None" "rows r0 = Some c" "batchSize r0 = batchSize r"
    using c by auto
  obtain c' where nx: "rows_Next c = (False, c')"
    using no by (cases "rows_Next c") simp
  have "readRows 0 0 r0 = Ret (ReturnFalse (r0\<lparr>rows := Some c', err := rows_Err c'\<rparr>))"
    using readRows_end [OF _ f0(2) nx, of 0 0] bs f0(3) by simp
  then have "Next (r, h) = Ret (False, r0\<lparr>rows := Some c', err := rows_Err c'\<rparr>, h0)"
    using e rr by (simp add: Next_def finish_batch_def)
  then show ?thesis using f0(1) nx by simp
qed

section \<open>The example reader\<close>

lemma example_reader_fields:
  "0 < n \<Longrightarrow>
   err (fst (example_reader xs e n)) = None
   \<and> rows (fst (example_reader xs e n)) = Some (cursor_of xs e)
   \<and> batchSize (fst (example_reader xs e n)) = n
   \<and> schema (fst (example_reader xs e n)) = two_columns
   \<and> record' (fst (example_reader xs e n)) = None"
  by (simp add: example_reader_def NewBatchReaderWithSchema_def NewRecordBuilder_def
      SetBatchSize_def)

lemma cursor_of_fields:
  "\<not> closed (cursor_of xs e) \<and> lasterr (cursor_of xs e) = None
   \<and> pending (cursor_of xs e) = xs \<and> trailing (cursor_of xs e) = e"
  by (simp add: cursor_of_def)

lemma three_rows_good:
  "map (good_row (schema_builders two_columns)) three_rows = map Some three_rows_cells"
  by (simp add: three_rows_def three_rows_cells_def schema_builders_def two_columns_def
      int64_field_def string_field_def good_row_def scanned_cell_def assert_append_def
      Append_def AppendNull_def)

section \<open>A call that reads rows\<close>

text \<open>
  C3, as the code has it. A call of \<^verbatim>\<open>Next\<close> that reads at least one row finalizes
  a batch of exactly the rows read in that call, stores it as the current record and
  returns true, provided that the schema has a column, that every row read scans and
  appends without an error, and that the cursor reports no error if it runs out during
  the call.
\<close>

theorem Next_emits_rows_read:
  assumes "Err r = None" and "rows r = Some c" and "\<not> closed c" and "lasterr c = None"
    and "pending c \<noteq> []" and "0 < batchSize r" and "schema r \<noteq> []"
    and "map (good_row (schema_builders (schema r))) (take (nat (batchSize r)) (pending c))
           = map Some css"
    and "length (pending c) < nat (batchSize r) \<longrightarrow> trailing c = None"
  shows "\<exists>r' h' rc c'.
     Next (r, h) = Ret (True, r', h')
     \<and> record' r' = Some rc \<and> record_rows h' rc = Some css \<and> NumRows rc = int (length css)
     \<and> rows r' = Some c' \<and> pending c' = drop (nat (batchSize r)) (pending c)
     \<and> Err r' = None"
proof -
  have e: "err r = None" using assms(1) by (simp add: Err_def)
  from Next_batch [OF e assms(2-8), of h] obtain r' h' rc c' where
    n: "Next (r, h) = Ret (length (pending c) < nat (batchSize r) \<longrightarrow> trailing c = None, r', h')"
    and f: "record' r' = Some rc" "record_rows h' rc = Some css" "NumRows rc = int (length css)"
       "rows r' = Some c'" "pending c' = drop (nat (batchSize r)) (pending c)"
       "err r' = (if length (pending c) < nat (batchSize r) then trailing c else None)"
    by blast
  have "Next (r, h) = Ret (True, r', h')" using n assms(9) by simp
  moreover have "Err r' = None" using f(6) assms(9) by (simp add: Err_def)
  ultimately show ?thesis using f by blast
qed

theorem Next_emits_rows_read_witness:
  "\<exists>r' h' rc c'.
     Next (example_reader three_rows None 2) = Ret (True, r', h')
     \<and> record' r' = Some rc
     \<and> record_rows h' rc = Some [[Some (AInt64 1), Some (AString ''x'')], [None, Some (AString ''y'')]]
     \<and> NumRows rc = 2
     \<and> rows r' = Some c'
     \<and> pending c' = [Inr [NullInt64 2 True, NullString [] False]]
     \<and> Err r' = None"
proof -
  let ?r = "fst (example_reader three_rows None 2)"
  let ?h = "snd (example_reader three_rows None 2)"
  let ?c = "cursor_of three_rows None"
  note f = example_reader_fields [of 2 three_rows None] cursor_of_fields [of three_rows None]
  have g: "map (good_row (schema_builders (schema ?r))) (take (nat (batchSize ?r)) (pending ?c))
      = map Some (take 2 three_rows_cells)"
    using three_rows_good f by (simp add: take_map [symmetric] del: take_map)
  have "\<exists>r' h' rc c'.
     Next (?r, ?h) = Ret (True, r', h')
     \<and> record' r' = Some rc \<and> record_rows h' rc = Some (take 2 three_rows_cells)
     \<and> NumRows rc = int (length (take 2 three_rows_cells))
     \<and> rows r' = Some c' \<and> pending c' = drop (nat (batchSize ?r)) (pending ?c)
     \<and> Err r' = None"
    using f g
    by (intro Next_emits_rows_read [of ?r ?c "take 2 three_rows_cells" ?h])
       (simp_all add: Err_def three_rows_def two_columns_def)
  then show ?thesis
    using f by (simp add: three_rows_cells_def three_rows_def)
qed

text \<open>
  The claim as stated fails when the cursor reports an error after the last row: the
  call has read a row and stored a record, and returns false with the error set.
\<close>

theorem Next_row_read_returns_false:
  "returned (Next (example_reader [Inr [NullInt64 1 True, NullString ''x'' True]]
                     (Some connection_lost) 2)) = Some False
   \<and> map_option has_record
       (reader_after (Next (example_reader [Inr [NullInt64 1 True, NullString ''x'' True]]
                              (Some connection_lost) 2))) = Some True
   \<and> map_option Err
       (reader_after (Next (example_reader [Inr [NullInt64 1 True, NullString ''x'' True]]
                              (Some connection_lost) 2))) = Some (Some connection_lost)"
proof -
  let ?xs = "[Inr [NullInt64 1 True, NullString ''x'' True]] :: scan_result list"
  let ?ex = "example_reader ?xs (Some connection_lost) 2"
  let ?c = "cursor_of ?xs (Some connection_lost)"
  note f = example_reader_fields [of 2 ?xs "Some connection_lost"]
    cursor_of_fields [of ?xs "Some connection_lost"]
  have g: "map (good_row (schema_builders (schema (fst ?ex)))) (take (nat (batchSize (fst ?ex))) (pending ?c))
      = map Some [[Some (AInt64 1), Some (AString ''x'')]]"
    using f
    by (simp add: schema_builders_def two_columns_def
      int64_field_def string_field_def good_row_def scanned_cell_def assert_append_def
      Append_def AppendNull_def)
  have "\<exists>r' h' rc c'.
     Next (fst ?ex, snd ?ex) =
       Ret (length (pending ?c) < nat (batchSize (fst ?ex)) \<longrightarrow> trailing ?c = None, r', h')
     \<and> record' r' = Some rc
     \<and> record_rows h' rc = Some [[Some (AInt64 1), Some (AString ''x'')]]
     \<and> NumRows rc = int (length [[Some (AInt64 1), Some (AString ''x'')]])
     \<and> rec_schema rc = schema (fst ?ex)
     \<and> rows r' = Some c' \<and> pending c' = drop (nat (batchSize (fst ?ex))) (pending ?c)
     \<and> trailing c' = trailing ?c
     \<and> lasterr c' = (if length (pending ?c) < nat (batchSize (fst ?ex)) then trailing ?c else None)
     \<and> closed c' = (length (pending ?c) < nat (batchSize (fst ?ex)))
     \<and> err r' = (if length (pending ?c) < nat (batchSize (fst ?ex)) then trailing ?c else None)
     \<and> schema r' = schema (fst ?ex) \<and> batchSize r' = batchSize (fst ?ex)"
    using f g by (intro Next_batch) (simp_all add: two_columns_def)
  then obtain r' h' rc where "Next ?ex = Ret (False, r', h')" "record' r' = Some rc"
      "err r' = Some connection_lost"
    using f by auto
  then show ?thesis by (simp add: returned_def reader_after_def has_record_def Err_def)
qed

section \<open>A call that finds no row\<close>

text \<open>
  C4. When the first fetch of a call of \<^verbatim>\<open>Next\<close> yields no row, the call sets the
  reader's error to what the cursor reports (its trailing error, nothing on a clean
  end), returns false, and leaves no current record: \<^verbatim>\<open>Record\<close> returns nil.
\<close>

theorem Next_no_rows:
  assumes "Err r = None" and "rows r = Some c" and "0 < batchSize r"
    and "fst (rows_Next c) = False"
  shows "\<exists>r' h'.
     Next (r, h) = Ret (False, r', h')
     \<and> Err r' = rows_Err (snd (rows_Next c))
     \<and> (\<not> closed c \<longrightarrow> Err r' = trailing c)
     \<and> record' r' = None \<and> Record (r', h') = Ret (None, h')"
proof -
  have e: "err r = None" using assms(1) by (simp add: Err_def)
  from Next_end [OF e assms(2-4), of h] obtain r' h' where
    n: "Next (r, h) = Ret (False, r', h')" and
    f: "err r' = rows_Err (snd (rows_Next c))" "record' r' = None"
    by blast
  have "\<not> closed c \<Longrightarrow> rows_Err (snd (rows_Next c)) = trailing c"
    using assms(4) by (simp add: rows_Next_def rows_Err_def split: list.splits)
  then show ?thesis using n f by (auto simp: Err_def Record_def)
qed

theorem Next_no_rows_witness:
  "\<exists>r' h'.
     Next (example_reader [] (Some connection_lost) 2) = Ret (False, r', h')
     \<and> Err r' = Some connection_lost
     \<and> record' r' = None \<and> Record (r', h') = Ret (None, h')"
proof -
  let ?ex = "example_reader [] (Some connection_lost) 2"
  let ?c = "cursor_of [] (Some connection_lost)"
  note f = example_reader_fields [of 2 "[]" "Some connection_lost"]
    cursor_of_fields [of "[]" "Some connection_lost"]
  have nx: "fst (rows_Next ?c) = False"
    by (simp add: rows_Next_def cursor_of_def)
  have "\<exists>r' h'.
     Next (fst ?ex, snd ?ex) = Ret (False, r', h')
     \<and> Err r' = rows_Err (snd (rows_Next ?c))
     \<and> (\<not> closed ?c \<longrightarrow> Err r' = trailing ?c)
     \<and> record' r' = None \<and> Record (r', h') = Ret (None, h')"
    using f nx by (intro Next_no_rows) (simp_all add: Err_def)
  then show ?thesis using f by auto
qed

section \<open>Cutting rows into batches\<close>

lemma chunks_Nil [simp]: "chunks B [] = []"
  by (simp add: chunks.simps)






section \<open>Taking the batch with Record\<close>

lemma retain_buf_data:
  "map_option snd (bufs (retain_buf b h) a) = map_option snd (bufs h a)"
  by (auto simp: retain_buf_def split: option.splits)

lemma fold_retain_data:
  "map_option snd (bufs (fold retain_buf as h) a) = map_option snd (bufs h a)"
  by (induction as arbitrary: h) (simp_all add: retain_buf_data)

lemma read_col_data:
  assumes "map_option snd (bufs h1 (c_buf c)) = map_option snd (bufs h (c_buf c))"
  shows "read_col h1 c = read_col h c"
  using assms
  by (cases "bufs h (c_buf c)"; cases "bufs h1 (c_buf c)") (auto simp: read_col_def)

lemma read_col_length:
  "read_col h c = Some d \<Longrightarrow> length d \<le> c_len c"
  by (auto simp: read_col_def split: option.splits)

lemma read_slice_all:
  assumes "read_col h c = Some d" "int (length d) = n"
  shows "read_col h (slice_col 0 n c) = Some d"
proof -
  from assms(1) obtain k d0 where b: "bufs h (c_buf c) = Some (k, d0)"
    and d: "d = take (c_len c) (drop (c_off c) d0)"
    by (auto simp: read_col_def split: option.splits)
  have "take (length d) (drop (c_off c) d0) = d"
    unfolding d by (simp add: min_def)
  then show ?thesis using b assms(2) by (auto simp: read_col_def slice_col_def)
qed

lemma Record_rows:
  assumes rc: "record' r = Some rc" and rows: "record_rows h rc = Some css"
  shows "\<exists>s h1. Record (r, h) = Ret (Some s, h1) \<and> record_rows h1 s = Some css
           \<and> NumRows s = NumRows rc"
proof -
  let ?n = "NumRows rc"
  let ?cols = "rec_cols rc"
  let ?h1 = "fold retain_buf (map c_buf ?cols) h"
  let ?s = "rc\<lparr>rec_cols := map (slice_col 0 ?n) ?cols, NumRows := ?n - 0\<rparr>"
  from rows have compl: "list_all (col_complete h ?n) ?cols"
    and css: "css = map (\<lambda>i. map (cell_at h i) ?cols) [0..<nat ?n]"
    by (auto simp: record_rows_def split: if_splits)
  have each: "\<exists>d. read_col h c = Some d \<and> int (length d) = ?n" if "c \<in> set ?cols" for c
    using compl that by (auto simp: list_all_iff col_complete_def split: option.splits)
  have ok: "list_all (\<lambda>c. slice_ok c 0 ?n) ?cols"
    unfolding list_all_iff
  proof
    fix c assume "c \<in> set ?cols"
    then obtain d where "read_col h c = Some d" "int (length d) = ?n" using each by blast
    then show "slice_ok c 0 ?n" using read_col_length [of h c d] by (auto simp: slice_ok_def)
  qed
  have same: "read_col ?h1 (slice_col 0 ?n c) = read_col h c" if cin: "c \<in> set ?cols" for c
  proof -
    obtain d where d: "read_col h c = Some d" "int (length d) = ?n" using each cin by blast
    have "read_col ?h1 (slice_col 0 ?n c) = read_col h (slice_col 0 ?n c)"
      by (rule read_col_data) (simp add: fold_retain_data slice_col_def)
    then show ?thesis using read_slice_all [OF d] d by simp
  qed
  have compl1: "list_all (col_complete ?h1 ?n) (map (slice_col 0 ?n) ?cols)"
    using compl same by (auto simp: list_all_iff col_complete_def)
  have cells: "cell_at ?h1 i (slice_col 0 ?n c) = cell_at h i c" if "c \<in> set ?cols" for i c
    using same [OF that] by (simp add: cell_at_def)
  have "record_rows ?h1 ?s = Some css"
    using compl1 cells by (simp add: record_rows_def css)
  moreover have "Record (r, h) = Ret (Some ?s, ?h1)"
    using rc ok by (simp add: Record_def NewSlice_def)
  ultimately show ?thesis by (intro exI [of _ ?s] exI [of _ ?h1]) simp
qed

section \<open>Draining a cursor\<close>


section \<open>A clean append adds exactly one cell\<close>




















section \<open>What a call of Next does to the store\<close>

lemma appendValue_addr:
  "appendValue (Some b) j d = Ret (e, b') \<Longrightarrow> b_addr b' = b_addr b \<and> b_schema b' = b_schema b"
  by (auto simp: appendValue_def split: if_splits outcome.splits)

lemma appendRow_addr:
  "appendRow j ds (Some b) = Ret (e, rb) \<Longrightarrow>
   \<exists>b'. rb = Some b' \<and> b_addr b' = b_addr b \<and> b_schema b' = b_schema b"
proof (induction ds arbitrary: j b)
  case Nil
  then show ?case by auto
next
  case (Cons d ds)
  show ?case
  proof (cases "appendValue (Some b) j d")
    case (Panic p)
    with Cons.prems show ?thesis by simp
  next
    case (Ret x)
    obtain e1 b1 where x: "x = (e1, b1)" by (cases x)
    have a: "b_addr b1 = b_addr b \<and> b_schema b1 = b_schema b"
      using Ret x appendValue_addr by blast
    show ?thesis
    proof (cases e1)
      case None
      with Cons.prems Ret x have "appendRow (Suc j) ds (Some b1) = Ret (e, rb)" by simp
      from Cons.IH [OF this] a show ?thesis by auto
    next
      case (Some e')
      with Cons.prems Ret x a show ?thesis by auto
    qed
  qed
qed

lemma readRows_frame:
  assumes "readRows i n r = Ret ex" "builder r = Some b"
  shows "record' (exit_reader ex) = record' r \<and> schema (exit_reader ex) = schema r
     \<and> (\<exists>b'. builder (exit_reader ex) = Some b' \<and> b_addr b' = b_addr b \<and> b_schema b' = b_schema b)"
  using assms
proof (induction k \<equiv> "nat (batchSize r - i)" arbitrary: i n r b)
  case 0
  then have "\<not> i < batchSize r" by simp
  then have "readRows i n r = Ret (LoopDone n r)" by (rule readRows_exit)
  with 0 show ?case by (auto simp: exit_reader_def)
next
  case (Suc k)
  then have lt: "i < batchSize r" by simp
  show ?case
  proof (cases "rows r")
    case None
    then have "readRows i n r = Panic NilDereference"
      using lt by (subst readRows.simps) simp
    with Suc.prems show ?thesis by simp
  next
    case (Some c)
    obtain more c' where nx: "rows_Next c = (more, c')" by (cases "rows_Next c")
    show ?thesis
    proof (cases more)
      case False
      with readRows_end [OF lt Some, of c' n] nx Suc.prems show ?thesis
        by (auto simp: exit_reader_def split: if_splits)
    next
      case True
      have nx': "rows_Next c = (True, c')" using nx True by simp
      show ?thesis
      proof (cases "rows_Scan c' (rowDest r)")
        case (Inl e)
        with readRows_scan_error [OF lt Some nx' Inl, of n] Suc.prems show ?thesis
          by (auto simp: exit_reader_def)
      next
        case (Inr dests)
        note step = readRows_fetch [OF lt Some nx' Inr, of n]
        show ?thesis
        proof (cases "appendRow 0 dests (builder r)")
          case (Panic p)
          with step Suc.prems show ?thesis by simp
        next
          case (Ret x)
          obtain eo rb where x: "x = (eo, rb)" by (cases x)
          from Ret x Suc.prems(2) appendRow_addr [of 0 dests b eo rb] obtain b1 where
            b1: "rb = Some b1" "b_addr b1 = b_addr b" "b_schema b1 = b_schema b"
            by auto
          show ?thesis
          proof (cases eo)
            case (Some e)
            with step Ret x Suc.prems b1 show ?thesis by (auto simp: exit_reader_def)
          next
            case None
            let ?r2 = "r\<lparr>rows := Some c', rowDest := dests, builder := rb\<rparr>"
            have rec: "readRows (i + 1) (n + 1) ?r2 = Ret ex"
              using step Ret x None Suc.prems(1) by simp
            have k: "k = nat (batchSize ?r2 - (i + 1))" using Suc.hyps(2) by simp
            have "record' (exit_reader ex) = record' ?r2 \<and> schema (exit_reader ex) = schema ?r2
               \<and> (\<exists>b'. builder (exit_reader ex) = Some b' \<and> b_addr b' = b_addr b1
                      \<and> b_schema b' = b_schema b1)"
              by (rule Suc.hyps(1) [OF k rec]) (simp add: b1)
            then show ?thesis using b1 by simp
          qed
        qed
      qed
    qed
  qed
qed

lemma NewRecord_frame:
  assumes "NewRecord h b = Ret (rc, b', h')"
  shows "b_addr b' = b_addr b \<and> b_schema b' = b_schema b
     \<and> next_addr h \<le> next_addr h' \<and> live_builders h' = live_builders h
     \<and> (\<forall>a. a < next_addr h \<longrightarrow> bufs h' a = bufs h a)
     \<and> (\<forall>col \<in> set (rec_cols rc). next_addr h \<le> c_buf col)"
proof -
  obtain cs h1 where al: "alloc_cols (b_fields b) h = (cs, h1)"
    by (cases "alloc_cols (b_fields b) h")
  from assms al have "rec_cols rc = cs" "h' = h1" "b_addr b' = b_addr b" "b_schema b' = b_schema b"
    by (auto simp: NewRecord_def split: outcome.splits)
  then show ?thesis using alloc_cols_frame [OF al] by auto
qed

lemma renew_release_heap:
  assumes "renew_builder (release_prior (r, h)) = (r0, h0)"
  shows "next_addr h0 = Suc (next_addr h)
     \<and> bufs h0 = bufs (snd (release_prior (r, h)))
     \<and> live_builders h0 = insert (next_addr h)
          (live_builders h - (case builder r of None \<Rightarrow> {} | Some b \<Rightarrow> {b_addr b}))"
  using assms
  by (auto simp: release_prior_def renew_builder_def NewRecordBuilder_def Builder_Release_def
      Record_Release_frame split: option.splits)

lemma Next_frame:
  assumes nx: "Next (r, h) = Ret (ok, r', h')" and e: "err r = None"
  shows "(\<forall>a. a < next_addr h \<longrightarrow> bufs h' a = bufs (snd (release_prior (r, h))) a)
     \<and> (\<exists>b'. builder r' = Some b' \<and> b_addr b' = next_addr h \<and> b_schema b' = schema r)
     \<and> live_builders h' = insert (next_addr h)
          (live_builders h - (case builder r of None \<Rightarrow> {} | Some b \<Rightarrow> {b_addr b}))
     \<and> (\<forall>rc'. record' r' = Some rc' \<longrightarrow> (\<forall>col \<in> set (rec_cols rc'). next_addr h < c_buf col))
     \<and> next_addr h < next_addr h' \<and> schema r' = schema r"
proof -
  obtain r0 h0 where rr: "renew_builder (release_prior (r, h)) = (r0, h0)"
    by (cases "renew_builder (release_prior (r, h))")
  from renew_release [OF rr] obtain b0 where
    f0: "record' r0 = None" "schema r0 = schema r"
    and b0: "builder r0 = Some b0" "b_schema b0 = schema r" "b_addr b0 = next_addr h"
    by auto
  note h0 = renew_release_heap [OF rr]
  from nx e rr obtain ex where run: "readRows 0 0 r0 = Ret ex"
    and fin: "finish_batch ex h0 = Ret (ok, r', h')"
    by (auto simp: Next_def split: outcome.splits)
  from readRows_frame [OF run b0(1)] obtain b1 where
    f1: "record' (exit_reader ex) = None" "schema (exit_reader ex) = schema r"
    and b1: "builder (exit_reader ex) = Some b1" "b_addr b1 = next_addr h" "b_schema b1 = schema r"
    using f0 b0 by auto
  show ?thesis
  proof (cases "r' = exit_reader ex \<and> h' = h0")
    case True
    then show ?thesis using f1 b1 h0 by simp
  next
    case False
    with fin obtain m r1 where ex: "ex = LoopDone m r1" and m: "0 < m"
      by (cases ex) (auto simp: finish_batch_def exit_reader_def split: if_splits)
    have r1: "exit_reader ex = r1" by (simp add: ex exit_reader_def)
    from fin ex m b1(1) r1 obtain rc b2 where
      nr: "NewRecord h0 b1 = Ret (rc, b2, h')"
      and r': "record' r' = Some rc" "builder r' = Some b2" "schema r' = schema r1"
      by (auto simp: finish_batch_def split: outcome.splits option.splits)
    from NewRecord_frame [OF nr] show ?thesis
      using r' h0 b1 f1 r1 by auto
  qed
qed


section \<open>Reference counts under Record, Next and Release\<close>

lemma fold_retain_frame:
  "next_addr (fold retain_buf as h) = next_addr h
   \<and> live_builders (fold retain_buf as h) = live_builders h"
  by (induction as arbitrary: h) (auto simp: retain_buf_def split: option.splits)

lemma fold_retain_other:
  "a \<notin> set as \<Longrightarrow> bufs (fold retain_buf as h) a = bufs h a"
  by (induction as arbitrary: h) (auto simp: retain_buf_def split: option.splits)

lemma fold_retain_distinct:
  "distinct as \<Longrightarrow> a \<in> set as \<Longrightarrow> bufs h a = Some (n, d) \<Longrightarrow>
   bufs (fold retain_buf as h) a = Some (Suc n, d)"
proof (induction as arbitrary: h)
  case Nil
  then show ?case by simp
next
  case (Cons b as)
  show ?case
  proof (cases "a = b")
    case True
    then have "a \<notin> set as" using Cons.prems(1) by simp
    then have "bufs (fold retain_buf as (retain_buf b h)) a = bufs (retain_buf b h) a"
      by (rule fold_retain_other)
    moreover have "bufs (retain_buf b h) a = Some (Suc n, d)"
      using True Cons.prems(3) by (simp add: retain_buf_def)
    ultimately show ?thesis by simp
  next
    case False
    then have "bufs (retain_buf b h) a = Some (n, d)"
      using Cons.prems(3) by (auto simp: retain_buf_def split: option.splits)
    then show ?thesis using Cons.IH [of "retain_buf b h"] Cons.prems False by simp
  qed
qed

lemma fold_release_other:
  "a \<notin> set as \<Longrightarrow> bufs (fold release_buf as h) a = bufs h a"
  by (induction as arbitrary: h) (auto simp: release_buf_def split: option.splits)

lemma fold_release_distinct:
  "distinct as \<Longrightarrow> a \<in> set as \<Longrightarrow> bufs h a = Some (Suc (Suc n), d) \<Longrightarrow>
   bufs (fold release_buf as h) a = Some (Suc n, d)"
proof (induction as arbitrary: h)
  case Nil
  then show ?case by simp
next
  case (Cons b as)
  show ?case
  proof (cases "a = b")
    case True
    then have "a \<notin> set as" using Cons.prems(1) by simp
    then have "bufs (fold release_buf as (release_buf b h)) a = bufs (release_buf b h) a"
      by (rule fold_release_other)
    moreover have "bufs (release_buf b h) a = Some (Suc n, d)"
      using True Cons.prems(3) by (simp add: release_buf_def)
    ultimately show ?thesis by simp
  next
    case False
    then have "bufs (release_buf b h) a = Some (Suc (Suc n), d)"
      using Cons.prems(3) by (auto simp: release_buf_def split: option.splits)
    then show ?thesis using Cons.IH [of "release_buf b h"] Cons.prems False by simp
  qed
qed

lemma cleanup_bufs: "bufs (snd (cleanup (r, h))) = bufs h"
  by (simp add: cleanup_def Builder_Release_def split: option.splits)

lemma Release_bufs: "bufs (snd (Release (r, h))) = bufs h"
  by (simp add: Release_def cleanup_bufs)

lemma record_rows_cong:
  assumes "\<forall>col \<in> set (rec_cols s).
     map_option snd (bufs h2 (c_buf col)) = map_option snd (bufs h1 (c_buf col))"
  shows "record_rows h2 s = record_rows h1 s"
proof -
  have rd: "read_col h2 c = read_col h1 c" if "c \<in> set (rec_cols s)" for c
    using assms that by (intro read_col_data) simp
  have "list_all (col_complete h2 (NumRows s)) (rec_cols s)
      = list_all (col_complete h1 (NumRows s)) (rec_cols s)"
    using rd by (simp add: list_all_iff col_complete_def)
  moreover have "map (cell_at h2 i) (rec_cols s) = map (cell_at h1 i) (rec_cols s)" for i
    using rd by (simp add: cell_at_def)
  ultimately show ?thesis by (simp add: record_rows_def)
qed

text \<open>
  C2. With a current batch of \<open>R\<close> rows whose column buffers are allocated and
  distinct, \<^verbatim>\<open>Record\<close> returns a slice of the rows \<open>[0, R)\<close> over the same buffers and
  raises the reference count of each by one. The slice shows the same rows after the
  next call of \<^verbatim>\<open>Next\<close> has released the reader's record (every buffer keeps a
  reference) and after the reader itself has been released.
\<close>

theorem Record_outlives_reader:
  assumes rc: "record' r = Some rc" and rows: "record_rows h rc = Some css"
    and dist: "distinct (map c_buf (rec_cols rc))"
    and live: "\<forall>col \<in> set (rec_cols rc). 1 \<le> refcount h (c_buf col) \<and> c_buf col < next_addr h"
  shows "\<exists>s h1.
     Record (r, h) = Ret (Some s, h1)
     \<and> map c_buf (rec_cols s) = map c_buf (rec_cols rc)
     \<and> map c_off (rec_cols s) = map c_off (rec_cols rc)
     \<and> (\<forall>col \<in> set (rec_cols s). c_len col = nat (NumRows rc))
     \<and> NumRows s = NumRows rc
     \<and> (\<forall>col \<in> set (rec_cols s). refcount h1 (c_buf col) = Suc (refcount h (c_buf col)))
     \<and> record_rows h1 s = Some css
     \<and> record_rows (snd (Release (r, h1))) s = Some css
     \<and> (\<forall>ok r2 h2. Next (r, h1) = Ret (ok, r2, h2) \<longrightarrow>
           record_rows h2 s = Some css
           \<and> (\<forall>col \<in> set (rec_cols s). 1 \<le> refcount h2 (c_buf col))
           \<and> record_rows (snd (Release (r2, h2))) s = Some css
           \<and> record_rows (snd (cleanup (r2, h2))) s = Some css)"
proof -
  let ?as = "map c_buf (rec_cols rc)"
  from Record_rows [OF rc rows] obtain s h1 where
    rec: "Record (r, h) = Ret (Some s, h1)" and rs: "record_rows h1 s = Some css"
    and nr: "NumRows s = NumRows rc"
    by blast
  from rec rc have s: "s = rc\<lparr>rec_cols := map (slice_col 0 (NumRows rc)) (rec_cols rc),
                             NumRows := NumRows rc - 0\<rparr>"
    and h1: "h1 = fold retain_buf ?as h"
    by (auto simp: Record_def NewSlice_def split: if_splits)
  have bufs_s: "map c_buf (rec_cols s) = ?as" and offs: "map c_off (rec_cols s) = map c_off (rec_cols rc)"
    by (simp_all add: s slice_col_def)
  have lens: "\<forall>col \<in> set (rec_cols s). c_len col = nat (NumRows rc)"
    by (simp add: s slice_col_def)
  have set_s: "c_buf ` set (rec_cols s) = set ?as"
    using bufs_s by (metis set_map)
  have cell: "\<exists>n d. bufs h a = Some (Suc n, d) \<and> bufs h1 a = Some (Suc (Suc n), d) \<and> a < next_addr h"
    if a: "a \<in> set ?as" for a
  proof -
    from a live have l: "1 \<le> refcount h a" "a < next_addr h" by auto
    then obtain n d where b: "bufs h a = Some (Suc n, d)"
      by (cases "bufs h a"; cases "refcount h a") (auto simp: refcount_def)
    have "bufs h1 a = Some (Suc (Suc n), d)"
      unfolding h1 using dist a b by (rule fold_retain_distinct)
    with b l show ?thesis by blast
  qed
  have rcnt: "\<forall>col \<in> set (rec_cols s). refcount h1 (c_buf col) = Suc (refcount h (c_buf col))"
  proof
    fix col assume "col \<in> set (rec_cols s)"
    then have "c_buf col \<in> set ?as" using set_s by blast
    from cell [OF this] show "refcount h1 (c_buf col) = Suc (refcount h (c_buf col))"
      by (auto simp: refcount_def)
  qed
  have keep: "record_rows h2 s = Some css"
    if "\<forall>a \<in> set ?as. map_option snd (bufs h2 a) = map_option snd (bufs h1 a)" for h2
  proof -
    have "record_rows h2 s = record_rows h1 s"
    proof (intro record_rows_cong ballI)
      fix col assume "col \<in> set (rec_cols s)"
      then have "c_buf col \<in> set ?as" using set_s by blast
      then show "map_option snd (bufs h2 (c_buf col)) = map_option snd (bufs h1 (c_buf col))"
        using that by blast
    qed
    then show ?thesis using rs by simp
  qed
  have rel: "record_rows (snd (Release (r', h'))) s = Some css
             \<and> record_rows (snd (cleanup (r', h'))) s = Some css"
    if "\<forall>a \<in> set ?as. map_option snd (bufs h' a) = map_option snd (bufs h1 a)" for r' h'
    using that by (auto intro!: keep simp: Release_bufs cleanup_bufs)
  have nxt: "record_rows h2 s = Some css
           \<and> (\<forall>col \<in> set (rec_cols s). 1 \<le> refcount h2 (c_buf col))
           \<and> record_rows (snd (Release (r2, h2))) s = Some css
           \<and> record_rows (snd (cleanup (r2, h2))) s = Some css"
    if nx: "Next (r, h1) = Ret (ok, r2, h2)" for ok r2 h2
  proof -
    have after: "\<exists>n d. bufs h2 a = Some (Suc n, d) \<and> map_option snd (bufs h1 a) = Some d"
      if a: "a \<in> set ?as" for a
    proof (cases "err r")
      case (Some e)
      then have "h2 = h1" using nx by (simp add: Next_def)
      with cell [OF a] show ?thesis by auto
    next
      case None
      from cell [OF a] obtain n d where
        c: "bufs h a = Some (Suc n, d)" "bufs h1 a = Some (Suc (Suc n), d)" "a < next_addr h"
        by blast
      have lt: "a < next_addr h1" using c(3) by (simp add: h1 fold_retain_frame)
      have "bufs h2 a = bufs (snd (release_prior (r, h1))) a"
        using Next_frame [OF nx None] lt by blast
      also have "\<dots> = bufs (fold release_buf ?as h1) a"
        using rc by (simp add: release_prior_def Record_Release_def)
      also have "\<dots> = Some (Suc n, d)"
        using dist a c(2) by (rule fold_release_distinct)
      finally show ?thesis using c(2) by simp
    qed
    have data: "\<forall>a \<in> set ?as. map_option snd (bufs h2 a) = map_option snd (bufs h1 a)"
      using after by fastforce
    have cnt: "\<forall>col \<in> set (rec_cols s). 1 \<le> refcount h2 (c_buf col)"
    proof
      fix col assume "col \<in> set (rec_cols s)"
      then have "c_buf col \<in> set ?as" using set_s by blast
      from after [OF this] show "1 \<le> refcount h2 (c_buf col)"
        by (auto simp: refcount_def)
    qed
    show ?thesis using keep [OF data] rel [OF data] cnt by blast
  qed
  have "record_rows (snd (Release (r, h1))) s = Some css"
    using rel [of h1 r] by simp
  with rec bufs_s offs lens nr rcnt rs nxt show ?thesis by blast
qed


lemma held_reader_reached: "Next two_row_reader = Ret (True, held_reader, held_heap)"
proof -
  let ?c = "cursor_of [Inr [NullInt64 1 True], Inr [NullInt64 7 True]] None"
  let ?c1 = "?c\<lparr>pending := [Inr [NullInt64 7 True]], current := Some (Inr [NullInt64 1 True])\<rparr>"
  let ?b = "\<lparr>b_addr = 1, b_schema = [int64_field],
             b_fields = [\<lparr>fb_type = Int64Builder, fb_vals = []\<rparr>]\<rparr>"
  let ?r0 = "\<lparr>refCount = 1, schema = [int64_field], rows = Some ?c, record' = None,
              builder = Some ?b, err = None, rowDest = [NullInt64 0 False], batchSize = 1\<rparr>"
  let ?h0 = "\<lparr>next_addr = 2, bufs = Map.empty, live_builders = {1}\<rparr>"
  have rr: "renew_builder (release_prior two_row_reader) = (?r0, ?h0)"
    by (simp add: two_row_reader_def NewBatchReaderWithSchema_def NewRecordBuilder_def
        empty_heap_def SetBatchSize_def release_prior_def renew_builder_def Builder_Release_def
        new_field_builder_def int64_field_def defaultBatchSize_def)
  let ?b1 = "?b\<lparr>b_fields := [\<lparr>fb_type = Int64Builder, fb_vals = [Some (AInt64 1)]\<rparr>]\<rparr>"
  let ?r1 = "?r0\<lparr>rows := Some ?c1, rowDest := [NullInt64 1 True], builder := Some ?b1\<rparr>"
  have ap: "appendRow 0 [NullInt64 1 True] (Some ?b) = Ret (None, Some ?b1)"
    by (simp add: appendValue_def assert_append_def Append_def)
  have step: "readRows 0 0 ?r0 =
     (case appendRow 0 [NullInt64 1 True] (builder ?r0) of
        Panic p \<Rightarrow> Panic p
      | Ret (Some e, rb) \<Rightarrow>
          Ret (ReturnFalse (?r0\<lparr>rows := Some ?c1, rowDest := [NullInt64 1 True],
                               builder := rb, err := Some e\<rparr>))
      | Ret (None, rb) \<Rightarrow>
          readRows (0 + 1) (0 + 1)
            (?r0\<lparr>rows := Some ?c1, rowDest := [NullInt64 1 True], builder := rb\<rparr>))"
    by (rule readRows_fetch [of 0 ?r0 ?c ?c1 "[NullInt64 1 True]" 0])
       (simp_all add: cursor_of_def rows_Next_def rows_Scan_def)
  have b: "builder ?r0 = Some ?b" by simp
  have "readRows 0 0 ?r0 = readRows (0 + 1) (0 + 1) ?r1"
    unfolding step b ap by simp
  also have "\<dots> = Ret (LoopDone 1 ?r1)"
    by (subst readRows_exit) simp_all
  finally have run: "readRows 0 0 ?r0 = Ret (LoopDone 1 ?r1)" .
  have fin: "finish_batch (LoopDone 1 ?r1) ?h0 = Ret (True, held_reader, held_heap)"
    by (simp add: finish_batch_def NewRecord_def rows_Err_def cursor_of_def
        held_reader_def held_record_def held_heap_def held_cursor_def)
  have e: "err (fst two_row_reader) = None"
    by (simp add: two_row_reader_def NewBatchReaderWithSchema_def NewRecordBuilder_def
        SetBatchSize_def)
  show ?thesis using e rr run fin by (simp add: Next_def)
qed

lemma held_reader_facts:
  "record' held_reader = Some held_record \<and> err held_reader = None
   \<and> rows held_reader = Some held_cursor
   \<and> batchSize held_reader = 1 \<and> schema held_reader = [int64_field]
   \<and> builder held_reader = Some \<lparr>b_addr = 1, b_schema = [int64_field],
                      b_fields = [\<lparr>fb_type = Int64Builder, fb_vals = []\<rparr>]\<rparr>"
  by (simp add: held_reader_def)

lemma held_cursor_facts:
  "\<not> closed held_cursor \<and> lasterr held_cursor = None
   \<and> pending held_cursor = [Inr [NullInt64 7 True]] \<and> trailing held_cursor = None"
  by (simp add: held_cursor_def)

lemma held_record_rows:
  "record_rows held_heap held_record = Some [[Some (AInt64 1)]]"
  by (simp add: record_rows_def held_record_def held_heap_def col_complete_def read_col_def
      cell_at_def)

lemma held_reader_next:
  "\<exists>r2 h2. Next (held_reader, h) = Ret (True, r2, h2)"
proof -
  let ?c = "held_cursor"
  note f = held_reader_facts held_cursor_facts
  have g: "map (good_row (schema_builders (schema held_reader)))
             (take (nat (batchSize held_reader)) (pending ?c)) = map Some [[Some (AInt64 7)]]"
    using f
    by (simp add: schema_builders_def int64_field_def good_row_def scanned_cell_def
        assert_append_def Append_def)
  have "\<exists>r' h' rc c'.
     Next (held_reader, h) =
       Ret (length (pending ?c) < nat (batchSize held_reader) \<longrightarrow> trailing ?c = None, r', h')
     \<and> record' r' = Some rc \<and> record_rows h' rc = Some [[Some (AInt64 7)]]
     \<and> NumRows rc = int (length [[Some (AInt64 7)]]) \<and> rec_schema rc = schema held_reader
     \<and> rows r' = Some c' \<and> pending c' = drop (nat (batchSize held_reader)) (pending ?c)
     \<and> trailing c' = trailing ?c
     \<and> lasterr c' = (if length (pending ?c) < nat (batchSize held_reader) then trailing ?c else None)
     \<and> closed c' = (length (pending ?c) < nat (batchSize held_reader))
     \<and> err r' = (if length (pending ?c) < nat (batchSize held_reader) then trailing ?c else None)
     \<and> schema r' = schema held_reader \<and> batchSize r' = batchSize held_reader"
    using f g by (intro Next_batch) simp_all
  then show ?thesis using f by auto
qed

theorem Record_outlives_reader_witness:
  "\<exists>s h1 r2 h2.
     Record (held_reader, held_heap) = Ret (Some s, h1)
     \<and> map c_buf (rec_cols s) = [2] \<and> NumRows s = 1
     \<and> refcount held_heap 2 = 1 \<and> refcount h1 2 = 2
     \<and> record_rows h1 s = Some [[Some (AInt64 1)]]
     \<and> Next (held_reader, h1) = Ret (True, r2, h2)
     \<and> record_rows h2 s = Some [[Some (AInt64 1)]]
     \<and> 1 \<le> refcount h2 2
     \<and> record_rows (snd (Release (r2, h2))) s = Some [[Some (AInt64 1)]]"
proof -
  have d: "distinct (map c_buf (rec_cols held_record))"
    by (simp add: held_record_def)
  have l: "\<forall>col \<in> set (rec_cols held_record).
             1 \<le> refcount held_heap (c_buf col) \<and> c_buf col < next_addr held_heap"
    by (simp add: held_record_def held_heap_def refcount_def)
  have rc: "record' held_reader = Some held_record" using held_reader_facts by simp
  from Record_outlives_reader [OF rc held_record_rows d l] obtain s h1 where
    r: "Record (held_reader, held_heap) = Ret (Some s, h1)"
    and b: "map c_buf (rec_cols s) = map c_buf (rec_cols held_record)"
    and n: "NumRows s = NumRows held_record"
    and cnt: "\<forall>col \<in> set (rec_cols s). refcount h1 (c_buf col) = Suc (refcount held_heap (c_buf col))"
    and rs: "record_rows h1 s = Some [[Some (AInt64 1)]]"
    and nx: "\<forall>ok r2 h2. Next (held_reader, h1) = Ret (ok, r2, h2) \<longrightarrow>
           record_rows h2 s = Some [[Some (AInt64 1)]]
           \<and> (\<forall>col \<in> set (rec_cols s). 1 \<le> refcount h2 (c_buf col))
           \<and> record_rows (snd (Release (r2, h2))) s = Some [[Some (AInt64 1)]]
           \<and> record_rows (snd (cleanup (r2, h2))) s = Some [[Some (AInt64 1)]]"
    by blast
  from b obtain col where col: "rec_cols s = [col]" "c_buf col = 2"
    by (auto simp: held_record_def map_eq_Cons_conv)
  from held_reader_next [of h1] obtain r2 h2 where
    n2: "Next (held_reader, h1) = Ret (True, r2, h2)" by blast
  from nx n2 have after: "record_rows h2 s = Some [[Some (AInt64 1)]]"
      "\<forall>col \<in> set (rec_cols s). 1 \<le> refcount h2 (c_buf col)"
      "record_rows (snd (Release (r2, h2))) s = Some [[Some (AInt64 1)]]"
    by blast+
  have c0: "refcount held_heap 2 = 1" by (simp add: refcount_def held_heap_def)
  have c1: "refcount h1 2 = 2" using cnt col c0 by simp
  have c2: "1 \<le> refcount h2 2" using after(2) col by simp
  have bs: "map c_buf (rec_cols s) = [2]" using col by simp
  have ns: "NumRows s = 1" using n by (simp add: held_record_def)
  show ?thesis
    using r bs ns c0 c1 rs n2 after(1) c2 after(3)
    by (intro exI [of _ s] exI [of _ h1] exI [of _ r2] exI [of _ h2]) simp
qed

section \<open>A fresh builder for every batch\<close>



end
